theory Spec2Isabelle
  imports Complex_Main "HOL-Library.Signed_Division"
begin

section \<open>The snake game of script.js as state-passing functions\<close>

text \<open>
  The module-level variables of \<^verbatim>\<open>script.js\<close> become one record that every function
  takes and returns. JavaScript numbers holding grid coordinates, scores and counters are
  integers; timestamps, pixel positions and the values of \<^verbatim>\<open>Math.random()\<close> are real
  numbers (doubles read as the reals they denote). Canvas drawing, sound (\<^verbatim>\<open>beep\<close>), the
  DOM overlay and \<^verbatim>\<open>localStorage\<close> are not part of the model.
\<close>

subsection \<open>Constants\<close>

definition boardSizePx :: int where
  "boardSizePx = 600"

definition cellSizePx :: int where
  "cellSizePx = 24"

definition gridWidth :: int where
  "gridWidth = \<lfloor>real_of_int boardSizePx / real_of_int cellSizePx\<rfloor>"

definition gridHeight :: int where
  "gridHeight = \<lfloor>real_of_int boardSizePx / real_of_int cellSizePx\<rfloor>"

definition magnetRadiusCells :: int where
  "magnetRadiusCells = 3"

subsection \<open>State\<close>

text \<open>A cell \<^verbatim>\<open>{ x, y }\<close> is a pair: \<open>fst\<close> is \<^verbatim>\<open>x\<close>, \<open>snd\<close> is \<^verbatim>\<open>y\<close>.\<close>

type_synonym cell = "int \<times> int"

record rocketEntity =
  xPx :: real
  yPx :: real
  vx :: real
  vy :: real
  untilMs :: real
  dropsLeft :: int
  nextDropAt :: real
  lastMs :: real

text \<open>
  \<open>rnd\<close> and \<open>rndPos\<close> stand for the generator behind \<^verbatim>\<open>Math.random()\<close>: \<open>rnd\<close> is the
  sequence of values it is going to return and \<open>rndPos\<close> counts the calls made so far.
\<close>

record game =
  snake :: "cell list"
  direction :: cell
  pendingDirection :: cell
  apples :: "cell list"
  bomb :: "cell option"
  magnet :: "cell option"
  magnetActive :: bool
  magnetUntil :: real
  rocket :: "cell option"
  rocketActive :: "rocketEntity option"
  score :: int
  best :: int
  running :: bool
  paused :: bool
  walls :: string
  speedMs :: real
  lastTick :: real
  rnd :: "nat \<Rightarrow> real"
  rndPos :: nat

text \<open>
  A call either does not return (\<open>None\<close>: the rejection loop of \<open>randomEmptyCellTotal\<close>
  may run forever), throws (\<open>Some (Inl TypeError)\<close>: reading \<^verbatim>\<open>snake[0].x\<close> of an empty
  snake) or returns a value (\<open>Some (Inr v)\<close>).
\<close>

datatype jsError = TypeError

datatype outcome =
  Suspended game
  | Waiting game
  | GameOver game
  | Completed game

definition andThen ::
  "(jsError + 'a) option \<Rightarrow> ('a \<Rightarrow> (jsError + 'b) option) \<Rightarrow> (jsError + 'b) option" where
  "andThen m f = (case m of None \<Rightarrow> None | Some (Inl e) \<Rightarrow> Some (Inl e) | Some (Inr a) \<Rightarrow> f a)"

subsection \<open>Numeric helpers of JavaScript\<close>

text \<open>\<^verbatim>\<open>Math.random()\<close>: the next value of the sequence; the generator advances.\<close>

definition random :: "game \<Rightarrow> real \<times> game" where
  "random s = (rnd s (rndPos s), s\<lparr>rndPos := Suc (rndPos s)\<rparr>)"

text \<open>
  \<^verbatim>\<open>Math.hypot\<close> and \<^verbatim>\<open>Math.atan2\<close> over the reals. \<^verbatim>\<open>Math.round\<close> is \<open>round\<close>
  (\<open>\<lfloor>x + 1/2\<rfloor>\<close>), \<^verbatim>\<open>Math.floor\<close> is \<open>\<lfloor>x\<rfloor>\<close>, and the remainder \<^verbatim>\<open>%\<close>, which takes the sign of
  its left operand, is \<open>smod\<close>.
\<close>

definition hypot :: "real \<Rightarrow> real \<Rightarrow> real" where
  "hypot a b = sqrt (a\<^sup>2 + b\<^sup>2)"

definition atan2 :: "real \<Rightarrow> real \<Rightarrow> real" where
  "atan2 b a =
     (if a > 0 then arctan (b / a)
      else if a < 0 \<and> b \<ge> 0 then arctan (b / a) + pi
      else if a < 0 then arctan (b / a) - pi
      else if b > 0 then pi / 2
      else if b < 0 then - (pi / 2)
      else 0)"

subsection \<open>Occupancy and the free-cell search\<close>

definition coordEq :: "cell \<Rightarrow> cell \<Rightarrow> bool" where
  "coordEq a b = (fst a = fst b \<and> snd a = snd b)"

definition isCellOccupiedBySnake :: "game \<Rightarrow> cell \<Rightarrow> bool" where
  "isCellOccupiedBySnake s pos = list_ex (\<lambda>seg. coordEq seg pos) (snake s)"

text \<open>\<^verbatim>\<open>p && coordEq(p, pos)\<close> for a pickup variable that is \<^verbatim>\<open>null\<close> or a cell.\<close>

definition pickupAt :: "cell option \<Rightarrow> cell \<Rightarrow> bool" where
  "pickupAt p pos = (case p of None \<Rightarrow> False | Some c \<Rightarrow> coordEq c pos)"

definition isCellOccupied :: "game \<Rightarrow> cell \<Rightarrow> bool" where
  "isCellOccupied s pos =
     (if isCellOccupiedBySnake s pos then True
      else if pickupAt (bomb s) pos then True
      else if pickupAt (magnet s) pos then True
      else if pickupAt (rocket s) pos then True
      else if list_ex (\<lambda>a. coordEq a pos) (apples s) then True
      else False)"

text \<open>
  The candidate \<^verbatim>\<open>{ x: Math.floor(Math.random() * gridWidth), y: ... }\<close> drawn at the
  current position of the generator.
\<close>

definition candidateCell :: "game \<Rightarrow> cell" where
  "candidateCell s =
     (\<lfloor>fst (random s) * real_of_int gridWidth\<rfloor>,
      \<lfloor>fst (random (snd (random s))) * real_of_int gridHeight\<rfloor>)"

text \<open>\<^verbatim>\<open>while (true) { ...; if (!isCellOccupied(candidate)) return candidate; }\<close>\<close>

partial_function (option) randomEmptyCellTotal :: "game \<Rightarrow> (cell \<times> game) option" where
  "randomEmptyCellTotal s =
     (if \<not> isCellOccupied (snd (random (snd (random s)))) (candidateCell s)
      then Some (candidateCell s, snd (random (snd (random s))))
      else randomEmptyCellTotal (snd (random (snd (random s)))))"

subsection \<open>Session control\<close>

definition initGame :: "game \<Rightarrow> game option" where
  "initGame s =
     (let startX = \<lfloor>real_of_int gridWidth / 3\<rfloor>;
          startY = \<lfloor>real_of_int gridHeight / 2\<rfloor>;
          s1 = s\<lparr>snake := [(startX + 2, startY), (startX + 1, startY), (startX, startY)],
                 direction := (1, 0),
                 pendingDirection := (1, 0)\<rparr>
      in case randomEmptyCellTotal s1 of
           None \<Rightarrow> None
         | Some (c, s2) \<Rightarrow>
             Some (s2\<lparr>apples := [c], bomb := None, rocket := None, rocketActive := None,
                      magnet := None, magnetActive := False, magnetUntil := 0, score := 0,
                      running := False, paused := False, lastTick := 0\<rparr>))"

text \<open>
  The two \<^verbatim>\<open>select\<close> values are parameters; \<^verbatim>\<open>speeds[diff] || 210\<close> falls back to 210.
\<close>

definition applySettingsFromUI :: "game \<Rightarrow> string \<Rightarrow> string \<Rightarrow> game" where
  "applySettingsFromUI s diff wallsValue =
     s\<lparr>walls := wallsValue,
       speedMs := (if diff = ''easy'' then 260 else if diff = ''normal'' then 210
                   else if diff = ''hard'' then 160 else 210)\<rparr>"

definition startGame :: "game \<Rightarrow> game" where
  "startGame s = s\<lparr>running := True, paused := False\<rparr>"

definition gameOver :: "game \<Rightarrow> game" where
  "gameOver s =
     (let s1 = s\<lparr>running := False\<rparr>
      in if score s1 > best s1 then s1\<lparr>best := score s1\<rparr> else s1)"

definition setDirectionFromInput :: "game \<Rightarrow> int \<Rightarrow> int \<Rightarrow> game" where
  "setDirectionFromInput s nx ny =
     (if nx = - fst (direction s) \<and> ny = - snd (direction s) then s
      else s\<lparr>pendingDirection := (nx, ny)\<rparr>)"

definition togglePause :: "game \<Rightarrow> game" where
  "togglePause s = (if \<not> running s then s else s\<lparr>paused := \<not> paused s\<rparr>)"

subsection \<open>Ground items: bomb, magnet, rocket\<close>

text \<open>
  The three spawn routines share their shape: a guard on what already exists, a roll of
  \<^verbatim>\<open>Math.random()\<close>, a free cell, and the test that the cell is further than 4 from the
  head \<^verbatim>\<open>snake[0]\<close>.
\<close>

definition maybeSpawnBomb :: "game \<Rightarrow> (jsError + game) option" where
  "maybeSpawnBomb s =
     (if bomb s \<noteq> None then Some (Inr s)
      else
        let r = fst (random s); s1 = snd (random s)
        in if r < 0.02 \<and> length (apples s1) \<ge> 1 then
             (case randomEmptyCellTotal s1 of
                None \<Rightarrow> None
              | Some (pos, s2) \<Rightarrow>
                  (case snake s2 of
                     [] \<Rightarrow> Some (Inl TypeError)
                   | head # _ \<Rightarrow>
                       if hypot (real_of_int (fst pos - fst head)) (real_of_int (snd pos - snd head)) > 4
                       then Some (Inr (s2\<lparr>bomb := Some pos\<rparr>))
                       else Some (Inr s2)))
           else Some (Inr s1))"

definition maybeSpawnMagnet :: "game \<Rightarrow> (jsError + game) option" where
  "maybeSpawnMagnet s =
     (if magnet s \<noteq> None \<or> magnetActive s then Some (Inr s)
      else
        let r = fst (random s); s1 = snd (random s)
        in if r < 0.015 then
             (case randomEmptyCellTotal s1 of
                None \<Rightarrow> None
              | Some (pos, s2) \<Rightarrow>
                  (case snake s2 of
                     [] \<Rightarrow> Some (Inl TypeError)
                   | head # _ \<Rightarrow>
                       if hypot (real_of_int (fst pos - fst head)) (real_of_int (snd pos - snd head)) > 4
                       then Some (Inr (s2\<lparr>magnet := Some pos\<rparr>))
                       else Some (Inr s2)))
           else Some (Inr s1))"

definition maybeSpawnRocket :: "game \<Rightarrow> (jsError + game) option" where
  "maybeSpawnRocket s =
     (if rocket s \<noteq> None \<or> rocketActive s \<noteq> None then Some (Inr s)
      else
        let r = fst (random s); s1 = snd (random s)
        in if r < 0.012 then
             (case randomEmptyCellTotal s1 of
                None \<Rightarrow> None
              | Some (pos, s2) \<Rightarrow>
                  (case snake s2 of
                     [] \<Rightarrow> Some (Inl TypeError)
                   | head # _ \<Rightarrow>
                       if hypot (real_of_int (fst pos - fst head)) (real_of_int (snd pos - snd head)) > 4
                       then Some (Inr (s2\<lparr>rocket := Some pos\<rparr>))
                       else Some (Inr s2)))
           else Some (Inr s1))"

subsection \<open>Bomb explosion\<close>

text \<open>
  The cell that iteration \<open>i\<close> of the loop in \<^verbatim>\<open>spawnAppleExplosion\<close> computes from its two
  rolls \<open>r1\<close> (angle jitter) and \<open>r2\<close> (distance), after the wrap.
\<close>

definition explosionCell :: "string \<Rightarrow> cell \<Rightarrow> nat \<Rightarrow> int \<Rightarrow> nat \<Rightarrow> real \<Rightarrow> real \<Rightarrow> cell" where
  "explosionCell w origin count radius i r1 r2 =
     (let angle = (real i / real count) * pi * 2 + r1 * 0.4;
          dist = 2 + \<lfloor>r2 * real_of_int radius\<rfloor>;
          pos = (fst origin + round (cos angle * real_of_int dist),
                 snd origin + round (sin angle * real_of_int dist))
      in if w = ''wrap''
         then ((fst pos + gridWidth) smod gridWidth, (snd pos + gridHeight) smod gridHeight)
         else pos)"

text \<open>
  One iteration: two rolls, then \<^verbatim>\<open>continue\<close> when the cell is off the grid, and a push to
  \<^verbatim>\<open>candidates\<close> when \<^verbatim>\<open>isCellOccupied\<close> says the cell is free. The apples are not touched
  until the loop is over.
\<close>

definition explosionStep ::
  "cell \<Rightarrow> nat \<Rightarrow> int \<Rightarrow> nat \<Rightarrow> cell list \<times> game \<Rightarrow> cell list \<times> game" where
  "explosionStep origin count radius i acc =
     (let candidates = fst acc; s = snd acc;
          r1 = fst (random s); s1 = snd (random s);
          r2 = fst (random s1); s2 = snd (random s1);
          wrapped = explosionCell (walls s2) origin count radius i r1 r2
      in if fst wrapped < 0 \<or> snd wrapped < 0 \<or> fst wrapped \<ge> gridWidth \<or> snd wrapped \<ge> gridHeight
         then (candidates, s2)
         else if \<not> isCellOccupied s2 wrapped then (candidates @ [wrapped], s2)
         else (candidates, s2))"

definition spawnAppleExplosion :: "game \<Rightarrow> cell \<Rightarrow> nat \<Rightarrow> int \<Rightarrow> game" where
  "spawnAppleExplosion s origin count radius =
     (let acc = fold (explosionStep origin count radius) [0..<count] ([], s);
          s1 = snd acc
      in s1\<lparr>apples := apples s1 @ fst acc\<rparr>)"

subsection \<open>The flying rocket\<close>

definition startRocket :: "game \<Rightarrow> cell \<Rightarrow> real \<Rightarrow> game" where
  "startRocket s c nowMs =
     (let cx = real_of_int (fst c * cellSizePx) + real_of_int cellSizePx / 2;
          cy = real_of_int (snd c * cellSizePx) + real_of_int cellSizePx / 2;
          speed = 240;
          angle = fst (random s) * pi * 2;
          s1 = snd (random s)
      in s1\<lparr>rocketActive :=
             Some \<lparr>xPx = cx, yPx = cy, vx = cos angle * speed, vy = sin angle * speed,
                   untilMs = nowMs + 10000, dropsLeft = 40, nextDropAt = nowMs + 250,
                   lastMs = nowMs\<rparr>\<rparr>)"

definition pixelToNearestCell :: "real \<Rightarrow> real \<Rightarrow> cell" where
  "pixelToNearestCell px py =
     (max 0 (min (gridWidth - 1)
        (round ((px - real_of_int cellSizePx / 2) / real_of_int cellSizePx))),
      max 0 (min (gridHeight - 1)
        (round ((py - real_of_int cellSizePx / 2) / real_of_int cellSizePx))))"

text \<open>\<^verbatim>\<open>jitterCell\<close> returns \<^verbatim>\<open>null\<close> (\<open>None\<close>) for a cell off the grid; it rolls twice.\<close>

definition jitterCell :: "game \<Rightarrow> cell \<Rightarrow> int \<Rightarrow> cell option \<times> game" where
  "jitterCell s c maxOffset =
     (let r1 = fst (random s); s1 = snd (random s);
          r2 = fst (random s1); s2 = snd (random s1);
          nx = fst c + (\<lfloor>r1 * real_of_int (2 * maxOffset + 1)\<rfloor> - maxOffset);
          ny = snd c + (\<lfloor>r2 * real_of_int (2 * maxOffset + 1)\<rfloor> - maxOffset);
          pos = (if walls s2 = ''wrap''
                 then ((nx + gridWidth) smod gridWidth, (ny + gridHeight) smod gridHeight)
                 else (nx, ny))
      in if fst pos < 0 \<or> snd pos < 0 \<or> fst pos \<ge> gridWidth \<or> snd pos \<ge> gridHeight
         then (None, s2)
         else (Some pos, s2))"

text \<open>
  The drop loop \<^verbatim>\<open>while (dropsLeft > 0 && nowMs >= nextDropAt)\<close>: each round pushes the
  jittered cell when it is free, and always spends one drop.
\<close>

function rocketDrops :: "game \<Rightarrow> rocketEntity \<Rightarrow> real \<Rightarrow> game \<times> rocketEntity" where
  "rocketDrops s ra nowMs =
     (if dropsLeft ra > 0 \<and> nowMs \<ge> nextDropAt ra then
        rocketDrops
          (case fst (jitterCell s (pixelToNearestCell (xPx ra) (yPx ra)) 1) of
             None \<Rightarrow> snd (jitterCell s (pixelToNearestCell (xPx ra) (yPx ra)) 1)
           | Some d \<Rightarrow>
               if \<not> isCellOccupied (snd (jitterCell s (pixelToNearestCell (xPx ra) (yPx ra)) 1)) d
               then (snd (jitterCell s (pixelToNearestCell (xPx ra) (yPx ra)) 1))
                      \<lparr>apples := apples (snd (jitterCell s (pixelToNearestCell (xPx ra) (yPx ra)) 1)) @ [d]\<rparr>
               else snd (jitterCell s (pixelToNearestCell (xPx ra) (yPx ra)) 1))
          (ra\<lparr>dropsLeft := dropsLeft ra - 1, nextDropAt := nextDropAt ra + 250\<rparr>)
          nowMs
      else (s, ra))"
  by pat_completeness auto
termination
  by (relation "measure (\<lambda>(s, ra, nowMs). nat (dropsLeft ra))") auto

declare rocketDrops.simps [simp del]

text \<open>
  \<^verbatim>\<open>updateRocket\<close> in its three parts: the motion with the bounce off the four inset
  borders, the random steering, and the drop loop followed by the expiry test.
\<close>

definition moveRocket :: "rocketEntity \<Rightarrow> real \<Rightarrow> rocketEntity" where
  "moveRocket ra nowMs =
     (let dt = (nowMs - lastMs ra) / 1000;
          ra1 = ra\<lparr>lastMs := nowMs, xPx := xPx ra + vx ra * dt, yPx := yPx ra + vy ra * dt\<rparr>;
          margin = real_of_int cellSizePx * 0.4;
          ra2 = (if xPx ra1 < margin then ra1\<lparr>xPx := margin, vx := vx ra1 * (- 1)\<rparr> else ra1);
          ra3 = (if xPx ra2 > real_of_int boardSizePx - margin
                 then ra2\<lparr>xPx := real_of_int boardSizePx - margin, vx := vx ra2 * (- 1)\<rparr>
                 else ra2);
          ra4 = (if yPx ra3 < margin then ra3\<lparr>yPx := margin, vy := vy ra3 * (- 1)\<rparr> else ra3)
      in if yPx ra4 > real_of_int boardSizePx - margin
         then ra4\<lparr>yPx := real_of_int boardSizePx - margin, vy := vy ra4 * (- 1)\<rparr>
         else ra4)"

definition steerRocket :: "game \<Rightarrow> rocketEntity \<Rightarrow> rocketEntity \<times> game" where
  "steerRocket s ra =
     (let r = fst (random s); s1 = snd (random s)
      in if r < 0.1 then
           let a = (fst (random s1) - 0.5) * 0.4;
               sp = hypot (vx ra) (vy ra);
               ang = atan2 (vy ra) (vx ra) + a
           in (ra\<lparr>vx := cos ang * sp, vy := sin ang * sp\<rparr>, snd (random s1))
         else (ra, s1))"

definition updateRocket :: "game \<Rightarrow> real \<Rightarrow> game" where
  "updateRocket s nowMs =
     (case rocketActive s of
        None \<Rightarrow> s
      | Some ra \<Rightarrow>
          let steered = steerRocket s (moveRocket ra nowMs);
              dropped = rocketDrops (snd steered) (fst steered) nowMs;
              s2 = fst dropped; ra6 = snd dropped
          in if nowMs \<ge> untilMs ra6 then s2\<lparr>rocketActive := None\<rparr>
             else s2\<lparr>rocketActive := Some ra6\<rparr>)"

subsection \<open>The simulation step\<close>

text \<open>
  The blocks of \<^verbatim>\<open>tick\<close> after \<^verbatim>\<open>snake.unshift(newHead)\<close>, each carrying the flag
  \<^verbatim>\<open>grewThisTick\<close> next to the state. First the bomb, else an apple under the head.
\<close>

definition findIndex :: "('a \<Rightarrow> bool) \<Rightarrow> 'a list \<Rightarrow> nat option" where
  "findIndex P xs = (if list_ex P xs then Some (length (takeWhile (\<lambda>a. \<not> P a) xs)) else None)"

definition collectBombOrApple :: "game \<Rightarrow> cell \<Rightarrow> game \<times> bool" where
  "collectBombOrApple s newHead =
     (if pickupAt (bomb s) newHead then
        ((spawnAppleExplosion s newHead 14 4)\<lparr>bomb := None\<rparr>, True)
      else
        (case findIndex (\<lambda>a. coordEq a newHead) (apples s) of
           Some idx \<Rightarrow>
             (s\<lparr>apples := take idx (apples s) @ drop (Suc idx) (apples s),
                score := score s + 10\<rparr>, True)
         | None \<Rightarrow> (s, False)))"

definition collectMagnet :: "game \<times> bool \<Rightarrow> cell \<Rightarrow> real \<Rightarrow> game \<times> bool" where
  "collectMagnet sg newHead nowMs =
     (if pickupAt (magnet (fst sg)) newHead
      then ((fst sg)\<lparr>magnetActive := True, magnetUntil := nowMs + 15000, magnet := None\<rparr>, True)
      else sg)"

definition collectRocket :: "game \<times> bool \<Rightarrow> cell \<Rightarrow> real \<Rightarrow> game \<times> bool" where
  "collectRocket sg newHead nowMs =
     (case rocket (fst sg) of
        None \<Rightarrow> sg
      | Some c \<Rightarrow>
          if coordEq newHead c then ((startRocket (fst sg) c nowMs)\<lparr>rocket := None\<rparr>, True)
          else sg)"

text \<open>
  The magnet effect: past \<open>magnetUntil\<close> it switches off; before, the apples within
  \<open>magnetRadiusCells\<close> of \<^verbatim>\<open>snake[0]\<close> are filtered out and counted in \<^verbatim>\<open>taken\<close>.
\<close>

definition inMagnetRange :: "cell \<Rightarrow> cell \<Rightarrow> bool" where
  "inMagnetRange head a =
     (hypot (real_of_int (fst a - fst head)) (real_of_int (snd a - snd head))
        \<le> real_of_int magnetRadiusCells)"

definition magnetEffect :: "game \<times> bool \<Rightarrow> real \<Rightarrow> jsError + game \<times> bool" where
  "magnetEffect sg nowMs =
     (let s = fst sg; grewThisTick = snd sg
      in if magnetActive s then
           (if nowMs \<ge> magnetUntil s then Inr (s\<lparr>magnetActive := False\<rparr>, grewThisTick)
            else
              (case snake s of
                 [] \<Rightarrow> Inl TypeError
               | head # _ \<Rightarrow>
                   let taken = int (length (filter (inMagnetRange head) (apples s)));
                       s1 = s\<lparr>apples := filter (\<lambda>a. \<not> inMagnetRange head a) (apples s)\<rparr>
                   in if taken > 0 then Inr (s1\<lparr>score := score s1 + 10 * taken\<rparr>, True)
                      else Inr (s1, grewThisTick)))
         else Inr sg)"

text \<open>The three pickup blocks in the order of the source: bomb or apple, magnet, rocket.\<close>

definition collectPickups :: "game \<Rightarrow> cell \<Rightarrow> real \<Rightarrow> game \<times> bool" where
  "collectPickups s newHead nowMs =
     collectRocket (collectMagnet (collectBombOrApple s newHead) newHead nowMs) newHead nowMs"

text \<open>\<^verbatim>\<open>if (!grewThisTick) snake.pop()\<close>\<close>

definition finalizeMovement :: "game \<times> bool \<Rightarrow> game" where
  "finalizeMovement sg = (if \<not> snd sg then (fst sg)\<lparr>snake := butlast (snake (fst sg))\<rparr> else fst sg)"

text \<open>\<^verbatim>\<open>if (apples.length === 0) apples.push(randomEmptyCellTotal())\<close>\<close>

definition ensureApple :: "game \<Rightarrow> (jsError + game) option" where
  "ensureApple s =
     (if length (apples s) = 0 then
        (case randomEmptyCellTotal s of
           None \<Rightarrow> None
         | Some (c, s1) \<Rightarrow> Some (Inr (s1\<lparr>apples := apples s1 @ [c]\<rparr>)))
      else Some (Inr s))"

text \<open>The head after the move, wrapped when the walls wrap.\<close>

definition newHeadOf :: "game \<Rightarrow> cell \<Rightarrow> cell" where
  "newHeadOf s head =
     (let nx = fst head + fst (direction s); ny = snd head + snd (direction s)
      in if walls s = ''wrap''
         then ((nx + gridWidth) smod gridWidth, (ny + gridHeight) smod gridHeight)
         else (nx, ny))"

definition outOfBounds :: "cell \<Rightarrow> bool" where
  "outOfBounds c = (fst c < 0 \<or> snd c < 0 \<or> fst c \<ge> gridWidth \<or> snd c \<ge> gridHeight)"

text \<open>Everything after \<^verbatim>\<open>snake.unshift(newHead)\<close>.\<close>

definition tickBody :: "game \<Rightarrow> cell \<Rightarrow> real \<Rightarrow> (jsError + outcome) option" where
  "tickBody s newHead nowMs =
     andThen (Some (magnetEffect (collectPickups s newHead nowMs) nowMs)) (\<lambda>sg.
     andThen (ensureApple (finalizeMovement sg)) (\<lambda>s1.
     andThen (maybeSpawnBomb s1) (\<lambda>s2.
     andThen (maybeSpawnMagnet s2) (\<lambda>s3.
     andThen (maybeSpawnRocket s3) (\<lambda>s4.
     Some (Inr (Completed (updateRocket s4 nowMs))))))))"

text \<open>
  The state once the tick is due: \<^verbatim>\<open>lastTick = nowMs\<close> and the pending direction applied.
\<close>

definition latch :: "game \<Rightarrow> real \<Rightarrow> game" where
  "latch s nowMs = s\<lparr>lastTick := nowMs, direction := pendingDirection s\<rparr>"

definition tick :: "game \<Rightarrow> real \<Rightarrow> (jsError + outcome) option" where
  "tick s nowMs =
     (if \<not> running s \<or> paused s then Some (Inr (Suspended s))
      else
        let s1 = (if lastTick s = 0 then s\<lparr>lastTick := nowMs\<rparr> else s);
            elapsed = nowMs - lastTick s1
        in if elapsed < speedMs s1 then Some (Inr (Waiting s1))
           else
             let s2 = latch s1 nowMs
             in case snake s2 of
                  [] \<Rightarrow> Some (Inl TypeError)
                | head # _ \<Rightarrow>
                    let newHead = newHeadOf s2 head;
                        hitsSelf = list_ex (\<lambda>seg. coordEq seg newHead) (snake s2)
                    in if (walls s2 = ''solid'' \<and> outOfBounds newHead) \<or> hitsSelf
                       then Some (Inr (GameOver (gameOver s2)))
                       else tickBody (s2\<lparr>snake := newHead # snake s2\<rparr>) newHead nowMs)"

section \<open>Notions used to state the properties\<close>

text \<open>
  The \<open>k\<close>-th candidate the free-cell search looks at: the cell named by rolls \<open>2k\<close> and
  \<open>2k + 1\<close> from the current position of the generator.
\<close>

definition nthCandidate :: "game \<Rightarrow> nat \<Rightarrow> cell" where
  "nthCandidate s k =
     (\<lfloor>rnd s (rndPos s + 2 * k) * real_of_int gridWidth\<rfloor>,
      \<lfloor>rnd s (rndPos s + 2 * k + 1) * real_of_int gridHeight\<rfloor>)"

text \<open>
  The cells an explosion adds, in loop order: iteration \<open>i\<close> uses rolls \<open>2i\<close> and \<open>2i + 1\<close>,
  and a cell is kept when it is on the grid and free in the state the explosion starts from.
\<close>

definition explosionCandidates :: "game \<Rightarrow> cell \<Rightarrow> nat \<Rightarrow> int \<Rightarrow> cell list" where
  "explosionCandidates s origin count radius =
     filter (\<lambda>c. \<not> outOfBounds c \<and> \<not> isCellOccupied s c)
       (map (\<lambda>i. explosionCell (walls s) origin count radius i
                   (rnd s (rndPos s + 2 * i)) (rnd s (rndPos s + 2 * i + 1)))
            [0..<count])"

text \<open>
  The state right after \<^verbatim>\<open>snake.unshift(newHead)\<close> in a tick that is due at \<open>nowMs\<close> and
  does not end the game; \<open>head\<close> is the head before the move.
\<close>

definition unshifted :: "game \<Rightarrow> real \<Rightarrow> cell \<Rightarrow> game" where
  "unshifted s nowMs head =
     (latch s nowMs)\<lparr>snake := newHeadOf (latch s nowMs) head # snake s\<rparr>"

text \<open>
  The growth sources of a tick, read off the state \<open>t\<close> right after the unshift, with \<open>h\<close>
  the new head: the head is on the bomb; else on an apple; on the magnet item; on the rocket
  item; the magnet effect, still running once the pickups are resolved, finds an apple in
  range.
\<close>

definition bombPickupFired :: "game \<Rightarrow> cell \<Rightarrow> bool" where
  "bombPickupFired t h = (bomb t = Some h)"

definition applePickupFired :: "game \<Rightarrow> cell \<Rightarrow> bool" where
  "applePickupFired t h = (bomb t \<noteq> Some h \<and> h \<in> set (apples t))"

definition magnetPickupFired :: "game \<Rightarrow> cell \<Rightarrow> bool" where
  "magnetPickupFired t h = (magnet t = Some h)"

definition rocketPickupFired :: "game \<Rightarrow> cell \<Rightarrow> bool" where
  "rocketPickupFired t h = (rocket t = Some h)"

definition magnetCollectFired :: "game \<Rightarrow> cell \<Rightarrow> real \<Rightarrow> bool" where
  "magnetCollectFired t h nowMs =
     (magnetActive (fst (collectPickups t h nowMs))
      \<and> nowMs < magnetUntil (fst (collectPickups t h nowMs))
      \<and> list_ex (inMagnetRange h) (apples (fst (collectPickups t h nowMs))))"

definition growthSourcesFired :: "game \<Rightarrow> cell \<Rightarrow> real \<Rightarrow> nat" where
  "growthSourcesFired t h nowMs =
     of_bool (bombPickupFired t h) + of_bool (applePickupFired t h)
     + of_bool (magnetPickupFired t h) + of_bool (rocketPickupFired t h)
     + of_bool (magnetCollectFired t h nowMs)"

text \<open>The four unit steps the input handlers pass to \<open>setDirectionFromInput\<close>.\<close>

definition isDirection :: "cell \<Rightarrow> bool" where
  "isDirection d = (d = (1, 0) \<or> d = (- 1, 0) \<or> d = (0, 1) \<or> d = (0, - 1))"

definition stateOf :: "outcome \<Rightarrow> game" where
  "stateOf out = (case out of Suspended s \<Rightarrow> s | Waiting s \<Rightarrow> s | GameOver s \<Rightarrow> s | Completed s \<Rightarrow> s)"

text \<open>
  The states the page can be in: boot is \<^verbatim>\<open>applySettingsFromUI(); initGame()\<close>, the two settings
  being \<^verbatim>\<open>solid\<close> or \<^verbatim>\<open>wrap\<close>; then animation frames call \<open>tick\<close> and the input
  handlers call the other functions, the direction keys with one of the four unit steps.
\<close>

inductive reachable :: "game \<Rightarrow> bool" where
  boot: "wallsValue = ''solid'' \<or> wallsValue = ''wrap'' \<Longrightarrow>
         initGame (applySettingsFromUI s0 diff wallsValue) = Some s \<Longrightarrow> reachable s"
| frame: "reachable s \<Longrightarrow> tick s nowMs = Some (Inr out) \<Longrightarrow> reachable (stateOf out)"
| start: "reachable s \<Longrightarrow> reachable (startGame s)"
| pause: "reachable s \<Longrightarrow> reachable (togglePause s)"
| restart: "reachable s \<Longrightarrow> initGame s = Some s' \<Longrightarrow> reachable s'"
| turn: "reachable s \<Longrightarrow> isDirection (nx, ny) \<Longrightarrow> reachable (setDirectionFromInput s nx ny)"
| settings: "reachable s \<Longrightarrow> wallsValue = ''solid'' \<or> wallsValue = ''wrap'' \<Longrightarrow>
         reachable (applySettingsFromUI s diff wallsValue)"


text \<open>
  ``Only the running flag and the best score change'': every other field of \<open>g\<close> is the
  field of \<open>s\<close>.
\<close>

definition onlyRunningAndBestChange :: "game \<Rightarrow> game \<Rightarrow> bool" where
  "onlyRunningAndBestChange s g = (g = s\<lparr>running := running g, best := best g\<rparr>)"


text \<open>
  The state in which a tick that is due and does not end the game reaches the test
  \<^verbatim>\<open>apples.length === 0\<close>: the head inserted, the pickups and the magnet effect resolved,
  the tail popped unless the snake grew.
\<close>

definition beforeRespawn :: "game \<Rightarrow> real \<Rightarrow> cell \<Rightarrow> jsError + game" where
  "beforeRespawn s nowMs head =
     (case magnetEffect (collectPickups (unshifted s nowMs head)
             (newHeadOf (latch s nowMs) head) nowMs) nowMs of
        Inl e \<Rightarrow> Inl e
      | Inr sg \<Rightarrow> Inr (finalizeMovement sg))"

text \<open>The cells of the grid that \<open>isCellOccupied\<close> reports free.\<close>

definition freeCells :: "game \<Rightarrow> cell set" where
  "freeCells s = {c. \<not> outOfBounds c \<and> \<not> isCellOccupied s c}"

text \<open>
  A sequence of rolls in which, from every position on, every cell of the grid is named by
  some pair of rolls the free-cell search would read. Independent uniform rolls have this
  property with probability one.
\<close>

definition everyCellRolled :: "(nat \<Rightarrow> real) \<Rightarrow> bool" where
  "everyCellRolled r =
     (\<forall>n c. \<not> outOfBounds c \<longrightarrow>
        (\<exists>k. (\<lfloor>r (n + 2 * k) * real_of_int gridWidth\<rfloor>,
              \<lfloor>r (n + 2 * k + 1) * real_of_int gridHeight\<rfloor>) = c))"
section \<open>Concrete states\<close>

text \<open>
  A running game with solid walls, due for a tick at 1210 ms, whose generator returns 1/2
  for ever (so no ground item spawns and the free-cell search proposes (12, 12)); the snake
  is about to eat the apple at (6, 5).
\<close>

definition demoState :: game where
  "demoState =
     \<lparr>snake = [(5, 5), (4, 5), (3, 5)], direction = (1, 0), pendingDirection = (1, 0),
      apples = [(6, 5)], bomb = None, magnet = None, magnetActive = False, magnetUntil = 0,
      rocket = None, rocketActive = None, score = 0, best = 0, running = True, paused = False,
      walls = ''solid'', speedMs = 210, lastTick = 1000, rnd = (\<lambda>n. 1 / 2), rndPos = 0\<rparr>"

text \<open>
  The magnet effect is on; the head moves onto the apple at (10, 10), with apples at
  distance 1, 3 and 5 of that cell.
\<close>

definition magnetState :: game where
  "magnetState =
     demoState\<lparr>snake := [(9, 10), (8, 10), (7, 10)],
               apples := [(10, 10), (11, 10), (13, 10), (15, 10)],
               magnetActive := True, magnetUntil := 5000\<rparr>"



text \<open>The head at (5, 5) turns left into the segment at (4, 5), where a bomb lies too.\<close>

definition selfHitState :: game where
  "selfHitState =
     demoState\<lparr>snake := [(5, 5), (5, 4), (4, 4), (4, 5), (4, 6)], direction := (0, 1),
               pendingDirection := (- 1, 0), bomb := Some (4, 5), score := 30, best := 20\<rparr>"

text \<open>The head on the top row turns up into the solid wall.\<close>

definition wallHitState :: game where
  "wallHitState =
     demoState\<lparr>snake := [(5, 0), (4, 0), (3, 0)], pendingDirection := (0, - 1)\<rparr>"

text \<open>Wrapping walls, the head in column 0 moving left.\<close>

definition wrapState :: game where
  "wrapState =
     demoState\<lparr>snake := [(0, 5), (1, 5), (2, 5)], direction := (- 1, 0),
               pendingDirection := (- 1, 0), walls := ''wrap''\<rparr>"

text \<open>
  The head moves onto a bomb at (12, 12). In \<open>dupRolls\<close> iteration 0 of the explosion rolls
  1/4 and 0 (angle 0.1, distance 2) and iteration 13 rolls 15/16 and 0 (angle
  \<open>13\<pi>/7 + 3/8\<close>, distance 2); in \<open>farRolls\<close> iteration 0 rolls 1/8 and 3/4 (angle 0.05,
  distance 5). Every other roll is 1/2.
\<close>

definition dupRolls :: "nat \<Rightarrow> real" where
  "dupRolls n = (if n = 0 then 1 / 4 else if n = 1 then 0 else if n = 26 then 15 / 16
                 else if n = 27 then 0 else 1 / 2)"

definition farRolls :: "nat \<Rightarrow> real" where
  "farRolls n = (if n = 0 then 1 / 8 else if n = 1 then 3 / 4 else 1 / 2)"

definition bombState :: "(nat \<Rightarrow> real) \<Rightarrow> game" where
  "bombState rolls =
     demoState\<lparr>snake := [(11, 12), (10, 12), (9, 12)], apples := [(3, 3)],
               bomb := Some (12, 12), rnd := rolls\<rparr>"

text \<open>
  The snake fills the 25 x 25 grid, row by row in alternating direction; the generator
  cycles through 0, 1/7, ..., 6/7.
\<close>

definition serpentine :: "cell list" where
  "serpentine = concat (map (\<lambda>j. map (\<lambda>i. (if even j then i else 24 - i, j)) [0..24]) [0..24])"

definition cyclicRolls :: "nat \<Rightarrow> real" where
  "cyclicRolls n = real (n mod 7) / 7"

definition fullBoard :: game where
  "fullBoard = demoState\<lparr>snake := serpentine, apples := [], rnd := cyclicRolls\<rparr>"

text \<open>
  The snake fills the grid except for (0, 0), where the last apple lies; the head at (1, 0)
  moves left onto it.
\<close>

definition lastAppleTail :: "cell list" where
  "lastAppleTail =
     map (\<lambda>i. (i, 0)) [2..24]
     @ concat (map (\<lambda>j. map (\<lambda>i. (if even j then i else 24 - i, j)) [0..24]) [1..24])"

definition lastAppleState :: game where
  "lastAppleState =
     demoState\<lparr>snake := (1, 0) # lastAppleTail, direction := (- 1, 0),
               pendingDirection := (- 1, 0), apples := [(0, 0)], rnd := cyclicRolls\<rparr>"

text \<open>
  Rolls that name every cell from every position: roll \<open>2m\<close> is \<open>m mod 25\<close> and roll
  \<open>2m + 1\<close> is \<open>(m div 25) mod 25\<close>, both divided by 25. The state is \<open>demoState\<close> with
  these rolls.
\<close>

definition coveringRolls :: "nat \<Rightarrow> real" where
  "coveringRolls n =
     (if even n then real ((n div 2) mod 25) else real ((n div 2) div 25 mod 25)) / 25"

definition coveringState :: game where
  "coveringState = demoState\<lparr>rnd := coveringRolls\<rparr>"

text \<open>
  A page load whose generator returns 1/2 except for rolls 2, 3 and 4: roll 2 (1/100) lets
  the first due tick spawn a bomb, which rolls 3 and 4 (4/5 each) place at (20, 20).
\<close>

definition bootRolls :: "nat \<Rightarrow> real" where
  "bootRolls n = (if n = 2 then 1 / 100 else if n = 3 \<or> n = 4 then 4 / 5 else 1 / 2)"

definition pageState :: game where
  "pageState =
     \<lparr>snake = [], direction = (1, 0), pendingDirection = (1, 0), apples = [], bomb = None,
      magnet = None, magnetActive = False, magnetUntil = 0, rocket = None, rocketActive = None,
      score = 0, best = 0, running = False, paused = False, walls = ''solid'', speedMs = 130,
      lastTick = 0, rnd = bootRolls, rndPos = 0\<rparr>"

definition bootState :: game where
  "bootState =
     pageState\<lparr>snake := [(10, 12), (9, 12), (8, 12)], apples := [(12, 12)], speedMs := 210,
               rndPos := 2\<rparr>"

definition bombSpawnedState :: game where
  "bombSpawnedState =
     bootState\<lparr>snake := [(11, 12), (10, 12), (9, 12)], running := True, lastTick := 1210,
               bomb := Some (20, 20), rndPos := 7\<rparr>"

text \<open>
  The state after the tick in which the head takes the bomb of \<open>bombState rolls\<close>: 28 rolls
  for the explosion and one for each spawn routine.
\<close>

definition bombAfter :: "(nat \<Rightarrow> real) \<Rightarrow> game" where
  "bombAfter rolls =
     (bombState rolls)
       \<lparr>snake := [(12, 12), (11, 12), (10, 12), (9, 12)], lastTick := 1210, rndPos := 31,
        apples := (3, 3) # explosionCandidates
                    ((bombState rolls)\<lparr>snake := [(12, 12), (11, 12), (10, 12), (9, 12)],
                                        lastTick := 1210\<rparr>) (12, 12) 14 4,
        bomb := None\<rparr>"

section \<open>Basic facts\<close>

lemma gridWidth_eq: "gridWidth = 25"
  by (simp add: gridWidth_def boardSizePx_def cellSizePx_def)

lemma gridHeight_eq: "gridHeight = 25"
  by (simp add: gridHeight_def boardSizePx_def cellSizePx_def)

lemma coordEq_iff: "coordEq a b \<longleftrightarrow> a = b"
  by (simp add: coordEq_def prod_eq_iff)

lemma list_ex_coordEq: "list_ex (\<lambda>seg. coordEq seg pos) xs \<longleftrightarrow> pos \<in> set xs"
  by (auto simp: list_ex_iff coordEq_iff)

lemma list_ex_coordEq': "list_ex (coordEq pos) xs \<longleftrightarrow> pos \<in> set xs"
  by (auto simp: list_ex_iff coordEq_iff)

lemma pickupAt_iff: "pickupAt p pos \<longleftrightarrow> p = Some pos"
  by (cases p) (auto simp: pickupAt_def coordEq_iff)

lemma isCellOccupied_iff:
  "isCellOccupied s pos \<longleftrightarrow>
     pos \<in> set (snake s) \<or> bomb s = Some pos \<or> magnet s = Some pos \<or> rocket s = Some pos
     \<or> pos \<in> set (apples s)"
  by (simp add: isCellOccupied_def isCellOccupiedBySnake_def list_ex_coordEq pickupAt_iff)

lemma fst_random: "fst (random s) = rnd s (rndPos s)"
  by (simp add: random_def)

lemma snd_random: "snd (random s) = s\<lparr>rndPos := Suc (rndPos s)\<rparr>"
  by (simp add: random_def)

lemma hypot_le_iff:
  "0 \<le> r \<Longrightarrow> hypot (real_of_int a) (real_of_int b) \<le> real_of_int r \<longleftrightarrow> a\<^sup>2 + b\<^sup>2 \<le> r\<^sup>2"
proof -
  assume r: "0 \<le> r"
  have "hypot (real_of_int a) (real_of_int b) \<le> real_of_int r
        \<longleftrightarrow> sqrt (real_of_int (a\<^sup>2 + b\<^sup>2)) \<le> sqrt (real_of_int (r\<^sup>2))"
    using r by (simp add: hypot_def)
  also have "\<dots> \<longleftrightarrow> a\<^sup>2 + b\<^sup>2 \<le> r\<^sup>2"
    by (simp only: real_sqrt_le_iff of_int_le_iff)
  finally show ?thesis .
qed

lemma hypot_gt4_iff: "hypot (real_of_int a) (real_of_int b) > 4 \<longleftrightarrow> a\<^sup>2 + b\<^sup>2 > 16"
  using hypot_le_iff [of 4 a b] by (simp add: not_le [symmetric])

lemma inMagnetRange_iff:
  "inMagnetRange head a \<longleftrightarrow> (fst a - fst head)\<^sup>2 + (snd a - snd head)\<^sup>2 \<le> 9"
  using hypot_le_iff [of 3 "fst a - fst head" "snd a - snd head"]
  by (simp add: inMagnetRange_def magnetRadiusCells_def)

lemma candidateCell_eq: "candidateCell s = nthCandidate s 0"
  by (simp add: candidateCell_def nthCandidate_def fst_random snd_random)

lemma isCellOccupied_rndPos: "isCellOccupied (s\<lparr>rndPos := n\<rparr>) c = isCellOccupied s c"
  by (simp add: isCellOccupied_iff)

lemma nthCandidate_shift:
  "nthCandidate (s\<lparr>rndPos := Suc (Suc (rndPos s))\<rparr>) k = nthCandidate s (Suc k)"
  by (simp add: nthCandidate_def)

lemma search_step:
  "randomEmptyCellTotal s =
     (if \<not> isCellOccupied s (nthCandidate s 0)
      then Some (nthCandidate s 0, s\<lparr>rndPos := Suc (Suc (rndPos s))\<rparr>)
      else randomEmptyCellTotal (s\<lparr>rndPos := Suc (Suc (rndPos s))\<rparr>))"
  by (subst randomEmptyCellTotal.simps)
     (simp add: candidateCell_eq snd_random isCellOccupied_rndPos)

lemma search_returns:
  "(\<forall>j<k. isCellOccupied s (nthCandidate s j)) \<Longrightarrow> \<not> isCellOccupied s (nthCandidate s k)
   \<Longrightarrow> randomEmptyCellTotal s = Some (nthCandidate s k, s\<lparr>rndPos := rndPos s + 2 * k + 2\<rparr>)"
proof (induction k arbitrary: s)
  case 0
  then show ?case by (subst search_step) simp
next
  case (Suc k)
  let ?t = "s\<lparr>rndPos := Suc (Suc (rndPos s))\<rparr>"
  have occ0: "isCellOccupied s (nthCandidate s 0)"
    using Suc.prems(1) by simp
  have "\<forall>j<k. isCellOccupied ?t (nthCandidate ?t j)"
    using Suc.prems(1) by (simp add: nthCandidate_shift isCellOccupied_rndPos)
  moreover have "\<not> isCellOccupied ?t (nthCandidate ?t k)"
    using Suc.prems(2) by (simp add: nthCandidate_shift isCellOccupied_rndPos)
  ultimately have "randomEmptyCellTotal ?t
      = Some (nthCandidate ?t k, ?t\<lparr>rndPos := rndPos ?t + 2 * k + 2\<rparr>)"
    by (rule Suc.IH)
  then show ?case
    using occ0 by (subst search_step) (simp add: nthCandidate_shift)
qed

lemma search_Some_D:
  assumes "randomEmptyCellTotal s = Some y"
  shows "\<exists>k. fst y = nthCandidate s k \<and> \<not> isCellOccupied s (fst y)
          \<and> (\<forall>j<k. isCellOccupied s (nthCandidate s j))
          \<and> snd y = s\<lparr>rndPos := rndPos s + 2 * k + 2\<rparr>"
  using assms
proof (induct rule: randomEmptyCellTotal.raw_induct [rotated 1, consumes 1, case_names step])
  case (step f s y)
  let ?t = "s\<lparr>rndPos := Suc (Suc (rndPos s))\<rparr>"
  show ?case
  proof (cases "isCellOccupied s (nthCandidate s 0)")
    case False
    with step(2) have "y = (nthCandidate s 0, ?t)"
      by (simp add: candidateCell_eq snd_random isCellOccupied_rndPos)
    with False show ?thesis by (intro exI [of _ 0]) simp
  next
    case True
    with step(2) have "f ?t = Some y"
      by (simp add: candidateCell_eq snd_random isCellOccupied_rndPos)
    from step(1) [OF this] obtain k where k:
      "fst y = nthCandidate ?t k" "\<not> isCellOccupied ?t (fst y)"
      "\<forall>j<k. isCellOccupied ?t (nthCandidate ?t j)"
      "snd y = ?t\<lparr>rndPos := rndPos ?t + 2 * k + 2\<rparr>"
      by blast
    have "\<forall>j<Suc k. isCellOccupied s (nthCandidate s j)"
    proof (intro allI impI)
      fix j assume "j < Suc k"
      show "isCellOccupied s (nthCandidate s j)"
      proof (cases j)
        case 0 with True show ?thesis by simp
      next
        case (Suc i)
        with \<open>j < Suc k\<close> k(3) show ?thesis
          by (simp add: nthCandidate_shift isCellOccupied_rndPos)
      qed
    qed
    with k show ?thesis
      by (intro exI [of _ "Suc k"]) (simp add: nthCandidate_shift isCellOccupied_rndPos)
  qed
qed

lemma search_None_iff:
  "randomEmptyCellTotal s = None \<longleftrightarrow> (\<forall>k. isCellOccupied s (nthCandidate s k))"
proof
  assume none: "randomEmptyCellTotal s = None"
  show "\<forall>k. isCellOccupied s (nthCandidate s k)"
  proof (rule ccontr)
    assume "\<not> (\<forall>k. isCellOccupied s (nthCandidate s k))"
    then obtain k where k: "\<not> isCellOccupied s (nthCandidate s k)" by blast
    define m where "m = (LEAST i. \<not> isCellOccupied s (nthCandidate s i))"
    have "\<not> isCellOccupied s (nthCandidate s m)"
      unfolding m_def using k by (rule LeastI)
    moreover have "\<forall>j<m. isCellOccupied s (nthCandidate s j)"
      unfolding m_def using not_less_Least by blast
    ultimately show False
      using search_returns [of m s] none by simp
  qed
next
  assume all: "\<forall>k. isCellOccupied s (nthCandidate s k)"
  show "randomEmptyCellTotal s = None"
  proof (cases "randomEmptyCellTotal s")
    case (Some y)
    from search_Some_D [OF this] all show ?thesis by auto
  qed simp
qed

section \<open>Explosion and rocket: what they change\<close>

lemma explosionStep_eq:
  "explosionStep origin count radius i (cs, s) =
     (cs @ filter (\<lambda>c. \<not> outOfBounds c \<and> \<not> isCellOccupied s c)
            [explosionCell (walls s) origin count radius i
               (rnd s (rndPos s)) (rnd s (rndPos s + 1))],
      s\<lparr>rndPos := rndPos s + 2\<rparr>)"
  by (simp add: explosionStep_def Let_def fst_random snd_random isCellOccupied_rndPos
      outOfBounds_def not_le not_less)

lemma explosion_fold:
  "fold (explosionStep origin count radius) [0..<n] (cs, s) =
     (cs @ filter (\<lambda>c. \<not> outOfBounds c \<and> \<not> isCellOccupied s c)
            (map (\<lambda>i. explosionCell (walls s) origin count radius i
                        (rnd s (rndPos s + 2 * i)) (rnd s (rndPos s + 2 * i + 1)))
                 [0..<n]),
      s\<lparr>rndPos := rndPos s + 2 * n\<rparr>)"
proof (induction n)
  case 0
  show ?case by simp
next
  case (Suc n)
  show ?case
    by (simp add: Suc.IH explosionStep_eq isCellOccupied_rndPos)
qed

lemma spawnAppleExplosion_eq:
  "spawnAppleExplosion s origin count radius =
     s\<lparr>rndPos := rndPos s + 2 * count,
       apples := apples s @ explosionCandidates s origin count radius\<rparr>"
  by (simp add: spawnAppleExplosion_def explosion_fold explosionCandidates_def Let_def)

lemma jitterCell_snd: "snd (jitterCell s c m) = s\<lparr>rndPos := rndPos s + 2\<rparr>"
  by (simp add: jitterCell_def Let_def snd_random)

lemma jitterCell_inBounds: "fst (jitterCell s c m) = Some d \<Longrightarrow> \<not> outOfBounds d"
  by (auto simp: jitterCell_def Let_def outOfBounds_def split: if_splits)

lemma rocketDrops_stop:
  "\<not> (dropsLeft ra > 0 \<and> nowMs \<ge> nextDropAt ra) \<Longrightarrow> rocketDrops s ra nowMs = (s, ra)"
  by (subst rocketDrops.simps) auto

lemma rocketDrops_step:
  "dropsLeft ra > 0 \<and> nowMs \<ge> nextDropAt ra \<Longrightarrow>
   rocketDrops s ra nowMs =
     rocketDrops
       (case fst (jitterCell s (pixelToNearestCell (xPx ra) (yPx ra)) 1) of
          None \<Rightarrow> snd (jitterCell s (pixelToNearestCell (xPx ra) (yPx ra)) 1)
        | Some d \<Rightarrow>
            if \<not> isCellOccupied (snd (jitterCell s (pixelToNearestCell (xPx ra) (yPx ra)) 1)) d
            then (snd (jitterCell s (pixelToNearestCell (xPx ra) (yPx ra)) 1))
                   \<lparr>apples := apples (snd (jitterCell s (pixelToNearestCell (xPx ra) (yPx ra)) 1)) @ [d]\<rparr>
            else snd (jitterCell s (pixelToNearestCell (xPx ra) (yPx ra)) 1))
       (ra\<lparr>dropsLeft := dropsLeft ra - 1, nextDropAt := nextDropAt ra + 250\<rparr>)
       nowMs"
  by (subst rocketDrops.simps) simp

lemma rocketDrops_frame:
  "\<exists>n xs. fst (rocketDrops s ra nowMs) = s\<lparr>rndPos := n, apples := apples s @ xs\<rparr>
         \<and> (distinct (apples s) \<longrightarrow> distinct (apples s @ xs))
         \<and> (\<forall>c\<in>set xs. \<not> outOfBounds c \<and> \<not> isCellOccupied s c)"
proof (induction s ra nowMs rule: rocketDrops.induct)
  case (1 s ra nowMs)
  show ?case
  proof (cases "dropsLeft ra > 0 \<and> nowMs \<ge> nextDropAt ra")
    case False
    then have "fst (rocketDrops s ra nowMs) = s\<lparr>rndPos := rndPos s, apples := apples s @ []\<rparr>"
      by (simp add: rocketDrops_stop)
    then show ?thesis by (intro exI [of _ "rndPos s"] exI [of _ "[]"]) simp
  next
    case True
    let ?j = "jitterCell s (pixelToNearestCell (xPx ra) (yPx ra)) 1"
    let ?t = "s\<lparr>rndPos := rndPos s + 2\<rparr>"
    let ?u = "case fst ?j of None \<Rightarrow> snd ?j
              | Some d \<Rightarrow> if \<not> isCellOccupied (snd ?j) d
                          then (snd ?j)\<lparr>apples := apples (snd ?j) @ [d]\<rparr> else snd ?j"
    let ?ra = "ra\<lparr>dropsLeft := dropsLeft ra - 1, nextDropAt := nextDropAt ra + 250\<rparr>"
    have unfold: "rocketDrops s ra nowMs = rocketDrops ?u ?ra nowMs"
      using True by (rule rocketDrops_step)
    from 1 [OF True] obtain n xs where
      IH: "fst (rocketDrops ?u ?ra nowMs) = ?u\<lparr>rndPos := n, apples := apples ?u @ xs\<rparr>"
          "distinct (apples ?u) \<longrightarrow> distinct (apples ?u @ xs)"
          "\<forall>c\<in>set xs. \<not> outOfBounds c \<and> \<not> isCellOccupied ?u c"
      by blast
    consider (push) d where "fst ?j = Some d" "\<not> isCellOccupied s d"
      | (skip) "?u = ?t"
    proof (cases "fst ?j")
      case None
      then have "?u = ?t" by (simp add: jitterCell_snd)
      then show ?thesis by (rule skip)
    next
      case (Some d)
      show ?thesis
      proof (cases "isCellOccupied s d")
        case True
        with Some have "?u = ?t" by (simp add: jitterCell_snd isCellOccupied_rndPos)
        then show ?thesis by (rule skip)
      next
        case False
        with Some show ?thesis by (intro push [of d]) simp_all
      qed
    qed
    then show ?thesis
    proof cases
      case push
      then have u: "?u = ?t\<lparr>apples := apples s @ [d]\<rparr>"
        by (simp add: jitterCell_snd isCellOccupied_rndPos)
      have occ: "\<And>c. isCellOccupied ?u c \<longleftrightarrow> isCellOccupied s c \<or> c = d"
        unfolding u by (auto simp: isCellOccupied_iff)
      have "fst (rocketDrops s ra nowMs) = s\<lparr>rndPos := n, apples := apples s @ (d # xs)\<rparr>"
        using IH(1) unfolding unfold u by simp
      moreover have "distinct (apples s) \<longrightarrow> distinct (apples s @ (d # xs))"
        using IH(2,3) push(2) unfolding u occ by (auto simp: isCellOccupied_iff)
      moreover have "\<forall>c\<in>set (d # xs). \<not> outOfBounds c \<and> \<not> isCellOccupied s c"
        using IH(3) push jitterCell_inBounds [OF push(1)] unfolding occ by auto
      ultimately show ?thesis by blast
    next
      case skip
      have "fst (rocketDrops s ra nowMs) = s\<lparr>rndPos := n, apples := apples s @ xs\<rparr>"
        using IH(1) unfolding unfold skip by simp
      moreover have "distinct (apples s) \<longrightarrow> distinct (apples s @ xs)"
        using IH(2) unfolding skip by simp
      moreover have "\<forall>c\<in>set xs. \<not> outOfBounds c \<and> \<not> isCellOccupied s c"
        using IH(3) unfolding skip by (simp add: isCellOccupied_rndPos)
      ultimately show ?thesis by blast
    qed
  qed
qed

lemma steerRocket_snd: "\<exists>m. snd (steerRocket s ra) = s\<lparr>rndPos := m\<rparr>"
  by (cases "fst (random s) < 0.1") (auto simp: steerRocket_def Let_def snd_random)

lemma updateRocket_frame:
  "\<exists>n xs ra'. updateRocket s nowMs = s\<lparr>rndPos := n, apples := apples s @ xs, rocketActive := ra'\<rparr>
       \<and> (rocketActive s = None \<longrightarrow> ra' = None \<and> xs = [])
       \<and> (distinct (apples s) \<longrightarrow> distinct (apples s @ xs))"
proof (cases "rocketActive s")
  case None
  then have "updateRocket s nowMs = s\<lparr>rndPos := rndPos s, apples := apples s @ [], rocketActive := None\<rparr>"
    by (simp add: updateRocket_def)
  then show ?thesis using None by (intro exI [of _ "rndPos s"] exI [of _ "[]"] exI [of _ None]) simp
next
  case (Some ra)
  define st where "st = steerRocket s (moveRocket ra nowMs)"
  obtain m where m: "snd st = s\<lparr>rndPos := m\<rparr>"
    unfolding st_def using steerRocket_snd by blast
  from rocketDrops_frame [of "snd st" "fst st" nowMs] obtain n xs where
    d: "fst (rocketDrops (snd st) (fst st) nowMs) = (snd st)\<lparr>rndPos := n, apples := apples (snd st) @ xs\<rparr>"
       "distinct (apples (snd st)) \<longrightarrow> distinct (apples (snd st) @ xs)"
    by blast
  have upd: "updateRocket s nowMs =
      (if nowMs \<ge> untilMs (snd (rocketDrops (snd st) (fst st) nowMs))
       then (fst (rocketDrops (snd st) (fst st) nowMs))\<lparr>rocketActive := None\<rparr>
       else (fst (rocketDrops (snd st) (fst st) nowMs))
              \<lparr>rocketActive := Some (snd (rocketDrops (snd st) (fst st) nowMs))\<rparr>)"
    using Some by (simp add: updateRocket_def Let_def st_def)
  show ?thesis
  proof (cases "nowMs \<ge> untilMs (snd (rocketDrops (snd st) (fst st) nowMs))")
    case True
    then have "updateRocket s nowMs = s\<lparr>rndPos := n, apples := apples s @ xs, rocketActive := None\<rparr>"
      using d(1) unfolding upd by (simp add: m)
    with d(2) m Some show ?thesis by auto
  next
    case False
    then have "updateRocket s nowMs = s\<lparr>rndPos := n, apples := apples s @ xs,
        rocketActive := Some (snd (rocketDrops (snd st) (fst st) nowMs))\<rparr>"
      using d(1) unfolding upd by (simp add: m)
    with d(2) m Some show ?thesis by auto
  qed
qed

section \<open>Spawn routines: what they change\<close>

lemma spawn_search_cases:
  assumes "(case randomEmptyCellTotal s1 of
              None \<Rightarrow> None
            | Some (pos, s2) \<Rightarrow>
                (case snake s2 of
                   [] \<Rightarrow> Some (Inl TypeError)
                 | head # _ \<Rightarrow>
                     if hypot (real_of_int (fst pos - fst head)) (real_of_int (snd pos - snd head)) > 4
                     then Some (Inr (upd s2 pos))
                     else Some (Inr s2))) = Some (Inr s')"
  shows "\<exists>n. s' = s1\<lparr>rndPos := n\<rparr>
           \<or> (\<exists>pos. s' = upd (s1\<lparr>rndPos := n\<rparr>) pos \<and> \<not> isCellOccupied s1 pos
                  \<and> pos \<notin> set (snake s1))"
proof (cases "randomEmptyCellTotal s1")
  case None
  with assms show ?thesis by simp
next
  case (Some y)
  from search_Some_D [OF Some] obtain k where
    k: "\<not> isCellOccupied s1 (fst y)" "snd y = s1\<lparr>rndPos := rndPos s1 + 2 * k + 2\<rparr>"
    by blast
  from k(1) have notin: "fst y \<notin> set (snake s1)"
    by (simp add: isCellOccupied_iff)
  obtain pos s2 where y: "y = (pos, s2)" by (cases y)
  with k have s2: "s2 = s1\<lparr>rndPos := rndPos s1 + 2 * k + 2\<rparr>" by simp
  from assms Some y s2 have
    "s' = s2 \<or> s' = upd s2 pos"
    by (cases "snake s1") (auto split: if_splits)
  then show ?thesis
  proof
    assume "s' = s2"
    with s2 show ?thesis by (intro exI [of _ "rndPos s1 + 2 * k + 2"] disjI1) simp
  next
    assume "s' = upd s2 pos"
    with s2 k(1) notin y show ?thesis
      by (intro exI [of _ "rndPos s1 + 2 * k + 2"] disjI2 exI [of _ pos]) simp
  qed
qed

lemma maybeSpawnBomb_D:
  assumes "maybeSpawnBomb s = Some (Inr s')"
  shows "\<exists>n b. s' = s\<lparr>rndPos := n, bomb := b\<rparr>
           \<and> (bomb s \<noteq> None \<longrightarrow> s' = s)"
proof (cases "bomb s \<noteq> None")
  case True
  with assms have "s' = s" by (simp add: maybeSpawnBomb_def)
  then show ?thesis by (intro exI [of _ "rndPos s"] exI [of _ "bomb s"]) simp
next
  case False
  show ?thesis
  proof (cases "fst (random s) < 0.02 \<and> length (apples (snd (random s))) \<ge> 1")
    case True
    with False assms spawn_search_cases [where ?s1.0 = "snd (random s)" and upd = "\<lambda>t pos. t\<lparr>bomb := Some pos\<rparr>" and s' = s']
    obtain n where "s' = (snd (random s))\<lparr>rndPos := n\<rparr>
           \<or> (\<exists>pos. s' = (snd (random s))\<lparr>rndPos := n, bomb := Some pos\<rparr>)"
      by (auto simp: maybeSpawnBomb_def Let_def)
    then show ?thesis
    proof (elim disjE exE)
      assume "s' = (snd (random s))\<lparr>rndPos := n\<rparr>"
      with False show ?thesis
        by (intro exI [of _ n] exI [of _ "bomb s"]) (simp add: snd_random)
    next
      fix pos assume "s' = (snd (random s))\<lparr>rndPos := n, bomb := Some pos\<rparr>"
      with False show ?thesis
        by (intro exI [of _ n] exI [of _ "Some pos"]) (simp add: snd_random)
    qed
  next
    case F2: False
    with False assms have "s' = snd (random s)"
      by (auto simp: maybeSpawnBomb_def Let_def)
    with False show ?thesis
      by (intro exI [of _ "Suc (rndPos s)"] exI [of _ "bomb s"]) (simp add: snd_random)
  qed
qed

lemma maybeSpawnMagnet_D:
  assumes "maybeSpawnMagnet s = Some (Inr s')"
  shows "\<exists>n b. s' = s\<lparr>rndPos := n, magnet := b\<rparr>
           \<and> (magnet s \<noteq> None \<or> magnetActive s \<longrightarrow> s' = s)"
proof (cases "magnet s \<noteq> None \<or> magnetActive s")
  case True
  with assms have "s' = s" by (simp add: maybeSpawnMagnet_def)
  then show ?thesis by (intro exI [of _ "rndPos s"] exI [of _ "magnet s"]) simp
next
  case False
  show ?thesis
  proof (cases "fst (random s) < 0.015")
    case True
    with False assms spawn_search_cases [where ?s1.0 = "snd (random s)" and upd = "\<lambda>t pos. t\<lparr>magnet := Some pos\<rparr>" and s' = s']
    obtain n where "s' = (snd (random s))\<lparr>rndPos := n\<rparr>
           \<or> (\<exists>pos. s' = (snd (random s))\<lparr>rndPos := n, magnet := Some pos\<rparr>)"
      by (auto simp: maybeSpawnMagnet_def Let_def)
    then show ?thesis
    proof (elim disjE exE)
      assume "s' = (snd (random s))\<lparr>rndPos := n\<rparr>"
      with False show ?thesis
        by (intro exI [of _ n] exI [of _ "magnet s"]) (simp add: snd_random)
    next
      fix pos assume "s' = (snd (random s))\<lparr>rndPos := n, magnet := Some pos\<rparr>"
      with False show ?thesis
        by (intro exI [of _ n] exI [of _ "Some pos"]) (simp add: snd_random)
    qed
  next
    case F2: False
    with False assms have "s' = snd (random s)"
      by (auto simp: maybeSpawnMagnet_def Let_def)
    with False show ?thesis
      by (intro exI [of _ "Suc (rndPos s)"] exI [of _ "magnet s"]) (simp add: snd_random)
  qed
qed

lemma maybeSpawnRocket_D:
  assumes "maybeSpawnRocket s = Some (Inr s')"
  shows "\<exists>n b. s' = s\<lparr>rndPos := n, rocket := b\<rparr>
           \<and> (rocket s \<noteq> None \<or> rocketActive s \<noteq> None \<longrightarrow> s' = s)"
proof (cases "rocket s \<noteq> None \<or> rocketActive s \<noteq> None")
  case True
  with assms have "s' = s" by (simp add: maybeSpawnRocket_def)
  then show ?thesis by (intro exI [of _ "rndPos s"] exI [of _ "rocket s"]) simp
next
  case False
  show ?thesis
  proof (cases "fst (random s) < 0.012")
    case True
    with False assms spawn_search_cases [where ?s1.0 = "snd (random s)" and upd = "\<lambda>t pos. t\<lparr>rocket := Some pos\<rparr>" and s' = s']
    obtain n where "s' = (snd (random s))\<lparr>rndPos := n\<rparr>
           \<or> (\<exists>pos. s' = (snd (random s))\<lparr>rndPos := n, rocket := Some pos\<rparr>)"
      by (auto simp: maybeSpawnRocket_def Let_def)
    then show ?thesis
    proof (elim disjE exE)
      assume "s' = (snd (random s))\<lparr>rndPos := n\<rparr>"
      with False show ?thesis
        by (intro exI [of _ n] exI [of _ "rocket s"]) (simp add: snd_random)
    next
      fix pos assume "s' = (snd (random s))\<lparr>rndPos := n, rocket := Some pos\<rparr>"
      with False show ?thesis
        by (intro exI [of _ n] exI [of _ "Some pos"]) (simp add: snd_random)
    qed
  next
    case F2: False
    with False assms have "s' = snd (random s)"
      by (auto simp: maybeSpawnRocket_def Let_def)
    with False show ?thesis
      by (intro exI [of _ "Suc (rndPos s)"] exI [of _ "rocket s"]) (simp add: snd_random)
  qed
qed

lemma ensureApple_D:
  assumes "ensureApple s = Some (Inr s')"
  shows "\<exists>n xs. s' = s\<lparr>rndPos := n, apples := xs\<rparr> \<and> xs \<noteq> []
           \<and> (apples s \<noteq> [] \<longrightarrow> s' = s)
           \<and> (apples s = [] \<longrightarrow> (\<exists>c. xs = [c] \<and> \<not> isCellOccupied s c))"
proof (cases "apples s = []")
  case False
  with assms have "s' = s" by (simp add: ensureApple_def)
  with False show ?thesis by (intro exI [of _ "rndPos s"] exI [of _ "apples s"]) simp
next
  case True
  with assms obtain y where y: "randomEmptyCellTotal s = Some y"
      and s': "s' = (snd y)\<lparr>apples := apples (snd y) @ [fst y]\<rparr>"
    by (auto simp: ensureApple_def split: option.splits)
  from search_Some_D [OF y] obtain k where
    k: "\<not> isCellOccupied s (fst y)" "snd y = s\<lparr>rndPos := rndPos s + 2 * k + 2\<rparr>"
    by blast
  have "s' = s\<lparr>rndPos := rndPos s + 2 * k + 2, apples := [fst y]\<rparr>"
    unfolding s' k(2) using True by simp
  with True k(1) show ?thesis by blast
qed

section \<open>Pickups and the magnet effect\<close>

lemma splice_remove1:
  "h \<in> set xs \<Longrightarrow>
   take (length (takeWhile (\<lambda>a. \<not> coordEq a h) xs)) xs
     @ drop (Suc (length (takeWhile (\<lambda>a. \<not> coordEq a h) xs))) xs = remove1 h xs"
  by (induction xs) (auto simp: coordEq_iff)

lemma collectBombOrApple_bomb:
  "bomb t = Some h \<Longrightarrow>
   collectBombOrApple t h =
     (t\<lparr>rndPos := rndPos t + 28, apples := apples t @ explosionCandidates t h 14 4,
        bomb := None\<rparr>, True)"
  by (simp add: collectBombOrApple_def pickupAt_iff spawnAppleExplosion_eq)

lemma collectBombOrApple_apple:
  "bomb t \<noteq> Some h \<Longrightarrow> h \<in> set (apples t) \<Longrightarrow>
   collectBombOrApple t h = (t\<lparr>apples := remove1 h (apples t), score := score t + 10\<rparr>, True)"
  by (simp add: collectBombOrApple_def pickupAt_iff findIndex_def list_ex_coordEq splice_remove1)

lemma collectBombOrApple_none:
  "bomb t \<noteq> Some h \<Longrightarrow> h \<notin> set (apples t) \<Longrightarrow> collectBombOrApple t h = (t, False)"
  by (simp add: collectBombOrApple_def pickupAt_iff findIndex_def list_ex_coordEq)

lemma collectMagnet_hit:
  "magnet (fst sg) = Some h \<Longrightarrow>
   collectMagnet sg h nowMs =
     ((fst sg)\<lparr>magnetActive := True, magnetUntil := nowMs + 15000, magnet := None\<rparr>, True)"
  by (simp add: collectMagnet_def pickupAt_iff)

lemma collectMagnet_miss: "magnet (fst sg) \<noteq> Some h \<Longrightarrow> collectMagnet sg h nowMs = sg"
  by (simp add: collectMagnet_def pickupAt_iff)

lemma collectRocket_hit:
  "rocket (fst sg) = Some h \<Longrightarrow>
   collectRocket sg h nowMs = ((startRocket (fst sg) h nowMs)\<lparr>rocket := None\<rparr>, True)"
  by (simp add: collectRocket_def coordEq_iff)

lemma collectRocket_miss: "rocket (fst sg) \<noteq> Some h \<Longrightarrow> collectRocket sg h nowMs = sg"
  by (cases "rocket (fst sg)") (auto simp: collectRocket_def coordEq_iff)

lemma startRocket_frame:
  "\<exists>ra. startRocket s c nowMs = s\<lparr>rndPos := Suc (rndPos s), rocketActive := Some ra\<rparr>"
  unfolding startRocket_def Let_def snd_random by (rule exI) (rule refl)

text \<open>The state the magnet effect block starts from, and the flag it is given.\<close>

lemma collectPickups_frame:
  "\<exists>n xs sc ra.
     fst (collectPickups t h nowMs) =
       t\<lparr>rndPos := n, apples := xs, score := sc,
         bomb := (if bomb t = Some h then None else bomb t),
         magnetActive := (magnet t = Some h \<or> magnetActive t),
         magnetUntil := (if magnet t = Some h then nowMs + 15000 else magnetUntil t),
         magnet := (if magnet t = Some h then None else magnet t),
         rocketActive := ra,
         rocket := (if rocket t = Some h then None else rocket t)\<rparr>
     \<and> xs = apples (fst (collectBombOrApple t h))
     \<and> sc = score (fst (collectBombOrApple t h))
     \<and> (if rocket t = Some h then ra \<noteq> None else ra = rocketActive t)
     \<and> snd (collectPickups t h nowMs) =
         (bomb t = Some h \<or> h \<in> set (apples t) \<or> magnet t = Some h \<or> rocket t = Some h)"
proof -
  obtain n xs sc g where
    b: "collectBombOrApple t h =
          (t\<lparr>rndPos := n, apples := xs, score := sc,
             bomb := (if bomb t = Some h then None else bomb t)\<rparr>, g)"
       "g = (bomb t = Some h \<or> h \<in> set (apples t))"
  proof (cases "bomb t = Some h")
    case True
    then show ?thesis
      by (intro that [where n = "rndPos t + 28" and xs = "apples t @ explosionCandidates t h 14 4"
            and sc = "score t" and g = True])
         (simp_all add: collectBombOrApple_bomb)
  next
    case False
    show ?thesis
    proof (cases "h \<in> set (apples t)")
      case True
      with False show ?thesis
        by (intro that [where n = "rndPos t" and xs = "remove1 h (apples t)" and sc = "score t + 10"
              and g = True])
           (simp_all add: collectBombOrApple_apple)
    next
      case F: False
      with False show ?thesis
        by (intro that [where n = "rndPos t" and xs = "apples t" and sc = "score t" and g = False])
           (simp_all add: collectBombOrApple_none)
    qed
  qed
  let ?b = "collectBombOrApple t h"
  let ?m = "collectMagnet ?b h nowMs"
  have m: "?m = ((fst ?b)\<lparr>magnetActive := (magnet t = Some h \<or> magnetActive t),
         magnetUntil := (if magnet t = Some h then nowMs + 15000 else magnetUntil t),
         magnet := (if magnet t = Some h then None else magnet t)\<rparr>,
       g \<or> magnet t = Some h)"
  proof (cases "magnet t = Some h")
    case True
    then show ?thesis by (simp add: collectMagnet_hit b)
  next
    case False
    then show ?thesis by (simp add: collectMagnet_miss b)
  qed
  show ?thesis
  proof (cases "rocket t = Some h")
    case True
    obtain ra where ra: "startRocket (fst ?m) h nowMs
        = (fst ?m)\<lparr>rndPos := Suc (rndPos (fst ?m)), rocketActive := Some ra\<rparr>"
      using startRocket_frame by blast
    have "rocket (fst ?m) = Some h" unfolding m using True by (simp add: b)
    then have "collectRocket ?m h nowMs = ((startRocket (fst ?m) h nowMs)\<lparr>rocket := None\<rparr>, True)"
      by (rule collectRocket_hit)
    then show ?thesis
      unfolding collectPickups_def ra unfolding m using True
      by (intro exI [of _ "Suc n"] exI [of _ xs] exI [of _ sc] exI [of _ "Some ra"])
         (simp add: b)
  next
    case False
    have "rocket (fst ?m) \<noteq> Some h" unfolding m using False by (simp add: b)
    then have "collectRocket ?m h nowMs = ?m"
      by (rule collectRocket_miss)
    then show ?thesis
      unfolding collectPickups_def m using False
      by (intro exI [of _ n] exI [of _ xs] exI [of _ sc] exI [of _ "rocketActive t"])
         (simp add: b)
  qed
qed

lemma magnetEffect_active:
  "magnetActive u \<Longrightarrow> nowMs < magnetUntil u \<Longrightarrow> snake u = h # xs \<Longrightarrow>
   magnetEffect (u, g) nowMs =
     Inr (u\<lparr>apples := filter (\<lambda>a. \<not> inMagnetRange h a) (apples u),
            score := score u + 10 * int (length (filter (inMagnetRange h) (apples u)))\<rparr>,
          g \<or> list_ex (inMagnetRange h) (apples u))"
  by (auto simp: magnetEffect_def Let_def list_ex_iff filter_empty_conv)

lemma magnetEffect_expired:
  "magnetActive u \<Longrightarrow> magnetUntil u \<le> nowMs \<Longrightarrow>
   magnetEffect (u, g) nowMs = Inr (u\<lparr>magnetActive := False\<rparr>, g)"
  by (simp add: magnetEffect_def)

lemma magnetEffect_inactive: "\<not> magnetActive u \<Longrightarrow> magnetEffect (u, g) nowMs = Inr (u, g)"
  by (simp add: magnetEffect_def)

section \<open>The shape of a tick\<close>

lemma andThen_Inr_D:
  "andThen m f = Some (Inr r) \<Longrightarrow> \<exists>a. m = Some (Inr a) \<and> f a = Some (Inr r)"
  by (auto simp: andThen_def split: option.splits sum.splits)

lemma tickBody_Completed_D:
  assumes "tickBody t h nowMs = Some (Inr (Completed s'))"
  shows "\<exists>sg s1 s2 s3 s4.
           magnetEffect (collectPickups t h nowMs) nowMs = Inr sg
         \<and> ensureApple (finalizeMovement sg) = Some (Inr s1)
         \<and> maybeSpawnBomb s1 = Some (Inr s2)
         \<and> maybeSpawnMagnet s2 = Some (Inr s3)
         \<and> maybeSpawnRocket s3 = Some (Inr s4)
         \<and> s' = updateRocket s4 nowMs"
proof -
  from assms obtain sg where 1: "magnetEffect (collectPickups t h nowMs) nowMs = Inr sg"
    and r1: "andThen (ensureApple (finalizeMovement sg)) (\<lambda>s1.
       andThen (maybeSpawnBomb s1) (\<lambda>s2.
       andThen (maybeSpawnMagnet s2) (\<lambda>s3.
       andThen (maybeSpawnRocket s3) (\<lambda>s4.
       Some (Inr (Completed (updateRocket s4 nowMs))))))) = Some (Inr (Completed s'))"
    unfolding tickBody_def by (blast dest: andThen_Inr_D)
  from andThen_Inr_D [OF r1] obtain s1 where 2: "ensureApple (finalizeMovement sg) = Some (Inr s1)"
    and r2: "andThen (maybeSpawnBomb s1) (\<lambda>s2.
       andThen (maybeSpawnMagnet s2) (\<lambda>s3.
       andThen (maybeSpawnRocket s3) (\<lambda>s4.
       Some (Inr (Completed (updateRocket s4 nowMs)))))) = Some (Inr (Completed s'))"
    by blast
  from andThen_Inr_D [OF r2] obtain s2 where 3: "maybeSpawnBomb s1 = Some (Inr s2)"
    and r3: "andThen (maybeSpawnMagnet s2) (\<lambda>s3.
       andThen (maybeSpawnRocket s3) (\<lambda>s4.
       Some (Inr (Completed (updateRocket s4 nowMs))))) = Some (Inr (Completed s'))"
    by blast
  from andThen_Inr_D [OF r3] obtain s3 where 4: "maybeSpawnMagnet s2 = Some (Inr s3)"
    and r4: "andThen (maybeSpawnRocket s3) (\<lambda>s4.
       Some (Inr (Completed (updateRocket s4 nowMs)))) = Some (Inr (Completed s'))"
    by blast
  from andThen_Inr_D [OF r4] obtain s4 where 5: "maybeSpawnRocket s3 = Some (Inr s4)"
    and r5: "s' = updateRocket s4 nowMs"
    by auto
  from 1 2 3 4 5 r5 show ?thesis by blast
qed

lemma tickBody_not_other:
  "tickBody t h nowMs \<noteq> Some (Inr (GameOver g))"
  "tickBody t h nowMs \<noteq> Some (Inr (Suspended g))"
  "tickBody t h nowMs \<noteq> Some (Inr (Waiting g))"
  by (auto simp: tickBody_def andThen_def split: option.splits sum.splits)

lemma latch_first_tick: "latch (s\<lparr>lastTick := x\<rparr>) nowMs = latch s nowMs"
  by (simp add: latch_def)

lemma tick_due:
  assumes "running s" "\<not> paused s"
    and "\<not> nowMs - (if lastTick s = 0 then nowMs else lastTick s) < speedMs s"
    and "snake s = head # rest"
  shows "tick s nowMs =
     (if (walls s = ''solid'' \<and> outOfBounds (newHeadOf (latch s nowMs) head))
         \<or> newHeadOf (latch s nowMs) head \<in> set (snake s)
      then Some (Inr (GameOver (gameOver (latch s nowMs))))
      else tickBody (unshifted s nowMs head) (newHeadOf (latch s nowMs) head) nowMs)"
proof -
  define s1 where "s1 = (if lastTick s = 0 then s\<lparr>lastTick := nowMs\<rparr> else s)"
  have l: "latch s1 nowMs = latch s nowMs"
    by (simp add: s1_def latch_def)
  have e: "\<not> nowMs - lastTick s1 < speedMs s1"
    using assms(3) by (simp add: s1_def split: if_splits)
  have sn: "snake (latch s nowMs) = head # rest" "walls (latch s nowMs) = walls s"
    by (simp_all add: latch_def assms)
  have "tick s nowMs =
     (case snake (latch s1 nowMs) of
        [] \<Rightarrow> Some (Inl TypeError)
      | head # _ \<Rightarrow>
          if (walls (latch s1 nowMs) = ''solid'' \<and> outOfBounds (newHeadOf (latch s1 nowMs) head))
             \<or> list_ex (\<lambda>seg. coordEq seg (newHeadOf (latch s1 nowMs) head)) (snake (latch s1 nowMs))
          then Some (Inr (GameOver (gameOver (latch s1 nowMs))))
          else tickBody ((latch s1 nowMs)\<lparr>snake := newHeadOf (latch s1 nowMs) head # snake (latch s1 nowMs)\<rparr>)
                 (newHeadOf (latch s1 nowMs) head) nowMs)"
    using assms(1,2) e unfolding tick_def Let_def s1_def by simp
  then show ?thesis
    unfolding l by (simp add: sn list_ex_coordEq unshifted_def assms(4))
qed

lemma tick_Completed_D:
  assumes "tick s nowMs = Some (Inr (Completed s'))"
  shows "\<exists>head rest. snake s = head # rest \<and> running s \<and> \<not> paused s
          \<and> \<not> nowMs - (if lastTick s = 0 then nowMs else lastTick s) < speedMs s
          \<and> \<not> (walls s = ''solid'' \<and> outOfBounds (newHeadOf (latch s nowMs) head))
          \<and> newHeadOf (latch s nowMs) head \<notin> set (snake s)
          \<and> tickBody (unshifted s nowMs head) (newHeadOf (latch s nowMs) head) nowMs
               = Some (Inr (Completed s'))"
proof -
  from assms have run: "running s" "\<not> paused s"
    by (auto simp: tick_def split: if_splits)
  from assms run have due: "\<not> nowMs - (if lastTick s = 0 then nowMs else lastTick s) < speedMs s"
    by (auto simp: tick_def Let_def split: if_splits)
  from assms run due obtain head rest where sn: "snake s = head # rest"
    by (cases "snake s") (auto simp: tick_def Let_def latch_def split: if_splits)
  from assms show ?thesis
    unfolding tick_due [OF run due sn] using run due sn
    by (auto split: if_splits)
qed

lemma tick_GameOver_D:
  assumes "tick s nowMs = Some (Inr (GameOver g))"
  shows "\<exists>head rest. snake s = head # rest \<and> running s \<and> \<not> paused s
          \<and> \<not> nowMs - (if lastTick s = 0 then nowMs else lastTick s) < speedMs s
          \<and> ((walls s = ''solid'' \<and> outOfBounds (newHeadOf (latch s nowMs) head))
               \<or> newHeadOf (latch s nowMs) head \<in> set (snake s))
          \<and> g = gameOver (latch s nowMs)"
proof -
  from assms have run: "running s" "\<not> paused s"
    by (auto simp: tick_def split: if_splits)
  from assms run have due: "\<not> nowMs - (if lastTick s = 0 then nowMs else lastTick s) < speedMs s"
    by (auto simp: tick_def Let_def split: if_splits)
  from assms run due obtain head rest where sn: "snake s = head # rest"
    by (cases "snake s") (auto simp: tick_def Let_def latch_def split: if_splits)
  from assms show ?thesis
    unfolding tick_due [OF run due sn] using run due sn
    by (auto split: if_splits simp: tickBody_not_other)
qed

section \<open>A completed tick as one state update\<close>

lemma tick_tail:
  assumes e: "ensureApple a = Some (Inr s1)"
    and b: "maybeSpawnBomb s1 = Some (Inr s2)"
    and m: "maybeSpawnMagnet s2 = Some (Inr s3)"
    and r: "maybeSpawnRocket s3 = Some (Inr s4)"
  shows "\<exists>n xs bo ma ro ra.
           updateRocket s4 nowMs =
             a\<lparr>rndPos := n, apples := xs, bomb := bo, magnet := ma, rocket := ro,
               rocketActive := ra\<rparr>
         \<and> xs \<noteq> []
         \<and> (bomb a \<noteq> None \<longrightarrow> bo = bomb a)
         \<and> (magnet a \<noteq> None \<or> magnetActive a \<longrightarrow> ma = magnet a)
         \<and> (rocket a \<noteq> None \<or> rocketActive a \<noteq> None \<longrightarrow> ro = rocket a)
         \<and> (rocketActive a = None \<longrightarrow> ra = None)"
proof -
  from ensureApple_D [OF e] obtain n1 xs1 where
    1: "s1 = a\<lparr>rndPos := n1, apples := xs1\<rparr>" "xs1 \<noteq> []"
    by blast
  from maybeSpawnBomb_D [OF b] obtain n2 bo where
    2: "s2 = s1\<lparr>rndPos := n2, bomb := bo\<rparr>" "bomb s1 \<noteq> None \<longrightarrow> s2 = s1"
    by blast
  from maybeSpawnMagnet_D [OF m] obtain n3 ma where
    3: "s3 = s2\<lparr>rndPos := n3, magnet := ma\<rparr>" "magnet s2 \<noteq> None \<or> magnetActive s2 \<longrightarrow> s3 = s2"
    by blast
  from maybeSpawnRocket_D [OF r] obtain n4 ro where
    4: "s4 = s3\<lparr>rndPos := n4, rocket := ro\<rparr>"
       "rocket s3 \<noteq> None \<or> rocketActive s3 \<noteq> None \<longrightarrow> s4 = s3"
    by blast
  from updateRocket_frame [of s4 nowMs] obtain n5 xs5 ra where
    5: "updateRocket s4 nowMs = s4\<lparr>rndPos := n5, apples := apples s4 @ xs5, rocketActive := ra\<rparr>"
       "rocketActive s4 = None \<longrightarrow> ra = None"
    by auto
  have bo: "bomb a \<noteq> None \<longrightarrow> bo = bomb a"
  proof
    assume "bomb a \<noteq> None"
    then have "bomb s1 \<noteq> None" by (simp add: 1)
    with 2(2) have "bomb s2 = bomb s1" by auto
    then show "bo = bomb a" by (simp add: 2(1) 1)
  qed
  have ma: "magnet a \<noteq> None \<or> magnetActive a \<longrightarrow> ma = magnet a"
  proof
    assume "magnet a \<noteq> None \<or> magnetActive a"
    then have "magnet s2 \<noteq> None \<or> magnetActive s2" by (simp add: 1 2(1))
    with 3(2) have "magnet s3 = magnet s2" by auto
    then show "ma = magnet a" by (simp add: 3(1) 2(1) 1)
  qed
  have ro: "rocket a \<noteq> None \<or> rocketActive a \<noteq> None \<longrightarrow> ro = rocket a"
  proof
    assume "rocket a \<noteq> None \<or> rocketActive a \<noteq> None"
    then have "rocket s3 \<noteq> None \<or> rocketActive s3 \<noteq> None" by (simp add: 1 2(1) 3(1))
    with 4(2) have "rocket s4 = rocket s3" by auto
    then show "ro = rocket a" by (simp add: 4(1) 3(1) 2(1) 1)
  qed
  have ra: "rocketActive a = None \<longrightarrow> ra = None"
    using 5(2) by (simp add: 4(1) 3(1) 2(1) 1)
  have "updateRocket s4 nowMs =
          a\<lparr>rndPos := n5, apples := xs1 @ xs5, bomb := bo, magnet := ma, rocket := ro,
            rocketActive := ra\<rparr>"
    unfolding 5(1) by (simp add: 4(1) 3(1) 2(1) 1)
  with 1(2) bo ma ro ra show ?thesis
    by (intro exI [of _ n5] exI [of _ "xs1 @ xs5"] exI [of _ bo] exI [of _ ma] exI [of _ ro]
        exI [of _ ra]) simp
qed

lemma magnetEffect_frame:
  assumes "snake u = h # xs"
  shows "\<exists>ys sc ma.
           magnetEffect (u, g) nowMs =
             Inr (u\<lparr>apples := ys, score := sc, magnetActive := ma\<rparr>,
                  g \<or> (magnetActive u \<and> nowMs < magnetUntil u
                        \<and> list_ex (inMagnetRange h) (apples u)))
         \<and> ma = (magnetActive u \<and> nowMs < magnetUntil u)
         \<and> set ys \<subseteq> set (apples u)"
proof (cases "magnetActive u")
  case False
  then show ?thesis
    by (intro exI [of _ "apples u"] exI [of _ "score u"] exI [of _ False])
       (simp add: magnetEffect_inactive)
next
  case True
  show ?thesis
  proof (cases "nowMs < magnetUntil u")
    case False
    with True show ?thesis
      by (intro exI [of _ "apples u"] exI [of _ "score u"] exI [of _ False])
         (simp add: magnetEffect_expired)
  next
    case lt: True
    with True assms show ?thesis
      by (intro exI [of _ "filter (\<lambda>a. \<not> inMagnetRange h a) (apples u)"]
          exI [of _ "score u + 10 * int (length (filter (inMagnetRange h) (apples u)))"]
          exI [of _ True])
         (simp add: magnetEffect_active)
  qed
qed

text \<open>A completed tick, as one update of the state after the unshift.\<close>

lemma tick_Completed_frame:
  assumes "tick s nowMs = Some (Inr (Completed s'))" and "snake s = head # rest"
  defines "h \<equiv> newHeadOf (latch s nowMs) head"
  defines "t \<equiv> unshifted s nowMs head"
  shows "\<exists>u g n xs bo ma ro ra.
           magnetEffect (collectPickups t h nowMs) nowMs = Inr (u, g)
         \<and> s' = (finalizeMovement (u, g))
                  \<lparr>rndPos := n, apples := xs, bomb := bo, magnet := ma, rocket := ro,
                    rocketActive := ra\<rparr>
         \<and> xs \<noteq> []
         \<and> (bomb u \<noteq> None \<longrightarrow> bo = bomb u)
         \<and> (magnet u \<noteq> None \<or> magnetActive u \<longrightarrow> ma = magnet u)
         \<and> (rocket u \<noteq> None \<or> rocketActive u \<noteq> None \<longrightarrow> ro = rocket u)
         \<and> (rocketActive u = None \<longrightarrow> ra = None)"
proof -
  from tick_Completed_D [OF assms(1)] obtain head' rest' where
    d: "snake s = head' # rest'"
       "tickBody (unshifted s nowMs head') (newHeadOf (latch s nowMs) head') nowMs
          = Some (Inr (Completed s'))"
    by (elim exE conjE) (rule that, assumption+)
  from d(1) assms(2) have "head' = head" by simp
  with d(2) have "tickBody t h nowMs = Some (Inr (Completed s'))"
    unfolding h_def t_def by simp
  from tickBody_Completed_D [OF this] obtain sg s1 s2 s3 s4 where
    c: "magnetEffect (collectPickups t h nowMs) nowMs = Inr sg"
       "ensureApple (finalizeMovement sg) = Some (Inr s1)"
       "maybeSpawnBomb s1 = Some (Inr s2)"
       "maybeSpawnMagnet s2 = Some (Inr s3)"
       "maybeSpawnRocket s3 = Some (Inr s4)"
       "s' = updateRocket s4 nowMs"
    by blast
  obtain u g where sg: "sg = (u, g)" by (cases sg)
  have fin: "bomb (finalizeMovement (u, g)) = bomb u" "magnet (finalizeMovement (u, g)) = magnet u"
    "magnetActive (finalizeMovement (u, g)) = magnetActive u"
    "rocket (finalizeMovement (u, g)) = rocket u"
    "rocketActive (finalizeMovement (u, g)) = rocketActive u"
    by (simp_all add: finalizeMovement_def)
  from tick_tail [OF c(2-5) [unfolded sg], of nowMs] obtain n xs bo ma ro ra where
    tl: "updateRocket s4 nowMs =
           (finalizeMovement (u, g))\<lparr>rndPos := n, apples := xs, bomb := bo, magnet := ma,
              rocket := ro, rocketActive := ra\<rparr>"
        "xs \<noteq> []"
        "bomb u \<noteq> None \<longrightarrow> bo = bomb u"
        "magnet u \<noteq> None \<or> magnetActive u \<longrightarrow> ma = magnet u"
        "rocket u \<noteq> None \<or> rocketActive u \<noteq> None \<longrightarrow> ro = rocket u"
        "rocketActive u = None \<longrightarrow> ra = None"
    unfolding fin by (elim exE conjE) (rule that, assumption+)
  show ?thesis
    using c(1) [unfolded sg] c(6) [unfolded tl(1)] tl(2-6)
    by (intro exI [of _ u] exI [of _ g] exI [of _ n] exI [of _ xs] exI [of _ bo] exI [of _ ma]
        exI [of _ ro] exI [of _ ra] conjI)
qed

lemma collectPickups_snake: "snake (fst (collectPickups t h nowMs)) = snake t"
proof -
  from collectPickups_frame [of t h nowMs] obtain n xs sc ra where
    "fst (collectPickups t h nowMs) =
       t\<lparr>rndPos := n, apples := xs, score := sc,
         bomb := (if bomb t = Some h then None else bomb t),
         magnetActive := (magnet t = Some h \<or> magnetActive t),
         magnetUntil := (if magnet t = Some h then nowMs + 15000 else magnetUntil t),
         magnet := (if magnet t = Some h then None else magnet t),
         rocketActive := ra,
         rocket := (if rocket t = Some h then None else rocket t)\<rparr>"
    by blast
  then show ?thesis by simp
qed

lemma collectPickups_grew:
  "snd (collectPickups t h nowMs) \<longleftrightarrow>
     bombPickupFired t h \<or> applePickupFired t h \<or> magnetPickupFired t h \<or> rocketPickupFired t h"
  using collectPickups_frame [of t h nowMs]
  by (auto simp: bombPickupFired_def applePickupFired_def magnetPickupFired_def
      rocketPickupFired_def)

text \<open>The flag after the magnet effect is the disjunction of the five growth sources.\<close>

lemma grew_iff:
  assumes "snake t = h # xs"
    and "magnetEffect (collectPickups t h nowMs) nowMs = Inr (u, g)"
  shows "g \<longleftrightarrow> growthSourcesFired t h nowMs \<noteq> 0" and "snake u = snake t"
proof -
  let ?p = "collectPickups t h nowMs"
  have sn: "snake (fst ?p) = h # xs"
    using assms(1) by (simp add: collectPickups_snake)
  from magnetEffect_frame [OF sn, of "snd ?p" nowMs] assms(2)
  obtain ys sc ma where
    f: "u = (fst ?p)\<lparr>apples := ys, score := sc, magnetActive := ma\<rparr>"
       "g = (snd ?p \<or> (magnetActive (fst ?p) \<and> nowMs < magnetUntil (fst ?p)
                \<and> list_ex (inMagnetRange h) (apples (fst ?p))))"
    by auto
  from f(2) show "g \<longleftrightarrow> growthSourcesFired t h nowMs \<noteq> 0"
    by (auto simp: growthSourcesFired_def collectPickups_grew magnetCollectFired_def)
  from f(1) show "snake u = snake t"
    by (simp add: collectPickups_snake)
qed

lemma tick_Completed_snake:
  assumes "tick s nowMs = Some (Inr (Completed s'))" and "snake s = head # rest"
  shows "snake s' =
     (if growthSourcesFired (unshifted s nowMs head) (newHeadOf (latch s nowMs) head) nowMs = 0
      then newHeadOf (latch s nowMs) head # butlast (snake s)
      else newHeadOf (latch s nowMs) head # snake s)"
proof -
  let ?h = "newHeadOf (latch s nowMs) head" and ?t = "unshifted s nowMs head"
  from tick_Completed_frame [OF assms] obtain u g n xs bo ma ro ra where
    f: "magnetEffect (collectPickups ?t ?h nowMs) nowMs = Inr (u, g)"
       "s' = (finalizeMovement (u, g))
               \<lparr>rndPos := n, apples := xs, bomb := bo, magnet := ma, rocket := ro,
                 rocketActive := ra\<rparr>"
    by blast
  have t: "snake ?t = ?h # snake s"
    by (simp add: unshifted_def)
  from grew_iff [OF t f(1)] have g: "g \<longleftrightarrow> growthSourcesFired ?t ?h nowMs \<noteq> 0"
    and u: "snake u = ?h # snake s"
    by (simp_all add: t)
  show ?thesis
    unfolding f(2) using g u assms(2) by (simp add: finalizeMovement_def)
qed

lemma tick_tail_apples:
  assumes e: "ensureApple a = Some (Inr s1)"
    and b: "maybeSpawnBomb s1 = Some (Inr s2)"
    and m: "maybeSpawnMagnet s2 = Some (Inr s3)"
    and r: "maybeSpawnRocket s3 = Some (Inr s4)"
  shows "(apples a \<noteq> [] \<longrightarrow> (\<exists>ys. apples (updateRocket s4 nowMs) = apples a @ ys))
       \<and> (apples a = [] \<longrightarrow>
            (\<exists>c ys. apples (updateRocket s4 nowMs) = c # ys \<and> \<not> isCellOccupied a c
                    \<and> (rocketActive a = None \<longrightarrow> ys = [])))"
proof -
  from ensureApple_D [OF e] obtain n1 xs1 where
    1: "s1 = a\<lparr>rndPos := n1, apples := xs1\<rparr>" "apples a \<noteq> [] \<longrightarrow> s1 = a"
       "apples a = [] \<longrightarrow> (\<exists>c. xs1 = [c] \<and> \<not> isCellOccupied a c)"
    by (elim exE conjE) (rule that, assumption+)
  from maybeSpawnBomb_D [OF b] obtain n2 bo where
    2: "s2 = s1\<lparr>rndPos := n2, bomb := bo\<rparr>"
    by blast
  from maybeSpawnMagnet_D [OF m] obtain n3 ma where
    3: "s3 = s2\<lparr>rndPos := n3, magnet := ma\<rparr>"
    by blast
  from maybeSpawnRocket_D [OF r] obtain n4 ro where
    4: "s4 = s3\<lparr>rndPos := n4, rocket := ro\<rparr>"
    by blast
  from updateRocket_frame [of s4 nowMs] obtain n5 xs5 ra where
    5: "updateRocket s4 nowMs = s4\<lparr>rndPos := n5, apples := apples s4 @ xs5, rocketActive := ra\<rparr>"
       "rocketActive s4 = None \<longrightarrow> xs5 = []"
    by auto
  have ap: "apples (updateRocket s4 nowMs) = xs1 @ xs5"
    unfolding 5(1) by (simp add: 4 3 2 1(1))
  have ra: "rocketActive s4 = rocketActive a"
    by (simp add: 4 3 2 1(1))
  show ?thesis
  proof (intro conjI impI)
    assume "apples a \<noteq> []"
    with 1(2) have "s1 = a" by simp
    moreover have "apples s1 = xs1" by (simp add: 1(1))
    ultimately have "xs1 = apples a" by simp
    with ap show "\<exists>ys. apples (updateRocket s4 nowMs) = apples a @ ys" by blast
  next
    assume "apples a = []"
    with 1(3) obtain c where c: "xs1 = [c]" "\<not> isCellOccupied a c" by blast
    with ap 5(2) ra show "\<exists>c ys. apples (updateRocket s4 nowMs) = c # ys \<and> \<not> isCellOccupied a c
                    \<and> (rocketActive a = None \<longrightarrow> ys = [])"
      by (intro exI [of _ c] exI [of _ xs5]) simp
  qed
qed

lemma unshifted_fields:
  "snake (unshifted s nowMs head) = newHeadOf (latch s nowMs) head # snake s"
  "magnet (unshifted s nowMs head) = magnet s"
  "magnetActive (unshifted s nowMs head) = magnetActive s"
  "magnetUntil (unshifted s nowMs head) = magnetUntil s"
  "rocket (unshifted s nowMs head) = rocket s"
  "rocketActive (unshifted s nowMs head) = rocketActive s"
  "bomb (unshifted s nowMs head) = bomb s"
  "apples (unshifted s nowMs head) = apples s"
  "score (unshifted s nowMs head) = score s"
  "pendingDirection (unshifted s nowMs head) = pendingDirection s"
  "direction (unshifted s nowMs head) = pendingDirection s"
  "walls (unshifted s nowMs head) = walls s"
  by (simp_all add: unshifted_def latch_def)

text \<open>
  The magnet and rocket fields after a completed tick, in terms of the state before it:
  \<open>h\<close> is the new head.
\<close>

lemma tick_Completed_pickups:
  assumes "tick s nowMs = Some (Inr (Completed s'))" and "snake s = head # rest"
  defines "h \<equiv> newHeadOf (latch s nowMs) head"
  shows "magnetUntil s' = (if magnet s = Some h then nowMs + 15000 else magnetUntil s)"
    and "magnetActive s' = ((magnet s = Some h \<or> magnetActive s) \<and> nowMs < magnetUntil s')"
    and "magnet s = Some h \<Longrightarrow> magnet s' = None"
    and "magnetActive s \<longrightarrow> magnet s = None \<Longrightarrow> magnetActive s' \<longrightarrow> magnet s' = None"
    and "rocketActive s \<noteq> None \<longrightarrow> rocket s = None \<Longrightarrow>
         rocketActive s' \<noteq> None \<longrightarrow> rocket s' = None"
    and "pendingDirection s' = pendingDirection s"
    and "direction s' = pendingDirection s"
proof -
  let ?t = "unshifted s nowMs head"
  from tick_Completed_frame [OF assms(1,2), folded h_def] obtain u g n xs bo ma ro ra where
    f: "magnetEffect (collectPickups ?t h nowMs) nowMs = Inr (u, g)"
       "s' = (finalizeMovement (u, g))
               \<lparr>rndPos := n, apples := xs, bomb := bo, magnet := ma, rocket := ro,
                 rocketActive := ra\<rparr>"
       "magnet u \<noteq> None \<or> magnetActive u \<longrightarrow> ma = magnet u"
       "rocket u \<noteq> None \<or> rocketActive u \<noteq> None \<longrightarrow> ro = rocket u"
       "rocketActive u = None \<longrightarrow> ra = None"
    by (elim exE conjE) (rule that, assumption+)
  let ?p = "fst (collectPickups ?t h nowMs)"
  from collectPickups_frame [of ?t h nowMs] obtain n' xs' sc' ra' where
    p: "?p = ?t\<lparr>rndPos := n', apples := xs', score := sc',
         bomb := (if bomb ?t = Some h then None else bomb ?t),
         magnetActive := (magnet ?t = Some h \<or> magnetActive ?t),
         magnetUntil := (if magnet ?t = Some h then nowMs + 15000 else magnetUntil ?t),
         magnet := (if magnet ?t = Some h then None else magnet ?t),
         rocketActive := ra',
         rocket := (if rocket ?t = Some h then None else rocket ?t)\<rparr>"
       "if rocket ?t = Some h then ra' \<noteq> None else ra' = rocketActive ?t"
    by (elim exE conjE) (rule that, assumption+)
  have pf: "magnet ?p = (if magnet s = Some h then None else magnet s)"
    "magnetActive ?p = (magnet s = Some h \<or> magnetActive s)"
    "magnetUntil ?p = (if magnet s = Some h then nowMs + 15000 else magnetUntil s)"
    "rocket ?p = (if rocket s = Some h then None else rocket s)"
    "rocketActive ?p = ra'" "snake ?p = h # snake s"
    "pendingDirection ?p = pendingDirection s" "direction ?p = pendingDirection s"
    unfolding p(1) by (simp_all add: unshifted_fields h_def)
  from magnetEffect_frame [OF pf(6), of "snd (collectPickups ?t h nowMs)" nowMs] f(1)
  obtain ys sc mact where
    u: "u = ?p\<lparr>apples := ys, score := sc, magnetActive := mact\<rparr>"
       "mact = (magnetActive ?p \<and> nowMs < magnetUntil ?p)"
    by auto
  have uf: "magnet u = magnet ?p" "magnetActive u = mact" "magnetUntil u = magnetUntil ?p"
    "rocket u = rocket ?p" "rocketActive u = ra'"
    "pendingDirection u = pendingDirection s" "direction u = pendingDirection s"
    unfolding u(1) by (simp_all add: pf)
  have sf: "magnet s' = ma" "magnetActive s' = mact" "magnetUntil s' = magnetUntil ?p"
    "rocket s' = ro" "rocketActive s' = ra"
    "pendingDirection s' = pendingDirection s" "direction s' = pendingDirection s"
    unfolding f(2) by (simp_all add: finalizeMovement_def uf)
  show "magnetUntil s' = (if magnet s = Some h then nowMs + 15000 else magnetUntil s)"
    by (simp add: sf pf)
  show "magnetActive s' = ((magnet s = Some h \<or> magnetActive s) \<and> nowMs < magnetUntil s')"
    by (simp add: sf u(2) pf)
  show "pendingDirection s' = pendingDirection s" "direction s' = pendingDirection s"
    by (simp_all add: sf)
  show "magnet s' = None" if "magnet s = Some h"
  proof -
    from that have "magnetActive u" by (simp add: uf u(2) pf)
    with f(3) have "ma = magnet u" by simp
    with that show ?thesis by (simp add: sf uf pf)
  qed
  show "magnetActive s' \<longrightarrow> magnet s' = None" if inv: "magnetActive s \<longrightarrow> magnet s = None"
  proof
    assume "magnetActive s'"
    then have act: "magnetActive u" by (simp add: sf uf)
    with f(3) have "ma = magnet u" by simp
    moreover from act inv have "magnet ?p = None"
      by (auto simp: uf u(2) pf)
    ultimately show "magnet s' = None" by (simp add: sf uf)
  qed
  show "rocketActive s' \<noteq> None \<longrightarrow> rocket s' = None"
    if inv: "rocketActive s \<noteq> None \<longrightarrow> rocket s = None"
  proof
    assume "rocketActive s' \<noteq> None"
    with f(5) have act: "rocketActive u \<noteq> None" by (auto simp: sf)
    with f(4) have "ro = rocket u" by simp
    moreover from act inv p(2) have "rocket ?p = None"
      by (auto simp: uf pf unshifted_fields split: if_splits)
    ultimately show "rocket s' = None" by (simp add: sf uf)
  qed
qed

section \<open>Evaluating the steps of a tick\<close>

lemma tickBody_eval:
  assumes "magnetEffect (collectPickups t h nowMs) nowMs = Inr sg"
    and "ensureApple (finalizeMovement sg) = Some (Inr s1)"
    and "maybeSpawnBomb s1 = Some (Inr s2)"
    and "maybeSpawnMagnet s2 = Some (Inr s3)"
    and "maybeSpawnRocket s3 = Some (Inr s4)"
  shows "tickBody t h nowMs = Some (Inr (Completed (updateRocket s4 nowMs)))"
  using assms by (simp add: tickBody_def andThen_def)

lemma maybeSpawnBomb_no_roll:
  "bomb s = None \<Longrightarrow> \<not> rnd s (rndPos s) < 0.02 \<Longrightarrow>
   maybeSpawnBomb s = Some (Inr (s\<lparr>rndPos := Suc (rndPos s)\<rparr>))"
  by (simp add: maybeSpawnBomb_def Let_def fst_random snd_random)

lemma maybeSpawnMagnet_no_roll:
  "magnet s = None \<Longrightarrow> \<not> magnetActive s \<Longrightarrow> \<not> rnd s (rndPos s) < 0.015 \<Longrightarrow>
   maybeSpawnMagnet s = Some (Inr (s\<lparr>rndPos := Suc (rndPos s)\<rparr>))"
  by (simp add: maybeSpawnMagnet_def Let_def fst_random snd_random)

lemma maybeSpawnRocket_no_roll:
  "rocket s = None \<Longrightarrow> rocketActive s = None \<Longrightarrow> \<not> rnd s (rndPos s) < 0.012 \<Longrightarrow>
   maybeSpawnRocket s = Some (Inr (s\<lparr>rndPos := Suc (rndPos s)\<rparr>))"
  by (simp add: maybeSpawnRocket_def Let_def fst_random snd_random)

lemma maybeSpawnBomb_guard: "bomb s \<noteq> None \<Longrightarrow> maybeSpawnBomb s = Some (Inr s)"
  by (simp add: maybeSpawnBomb_def)

lemma maybeSpawnMagnet_guard:
  "magnet s \<noteq> None \<or> magnetActive s \<Longrightarrow> maybeSpawnMagnet s = Some (Inr s)"
  by (simp add: maybeSpawnMagnet_def)

lemma maybeSpawnRocket_guard:
  "rocket s \<noteq> None \<or> rocketActive s \<noteq> None \<Longrightarrow> maybeSpawnRocket s = Some (Inr s)"
  by (simp add: maybeSpawnRocket_def)

lemma ensureApple_keep: "apples s \<noteq> [] \<Longrightarrow> ensureApple s = Some (Inr s)"
  by (simp add: ensureApple_def)

lemma ensureApple_first:
  "apples s = [] \<Longrightarrow> \<not> isCellOccupied s (nthCandidate s 0) \<Longrightarrow>
   ensureApple s = Some (Inr (s\<lparr>rndPos := rndPos s + 2, apples := [nthCandidate s 0]\<rparr>))"
  using search_returns [of 0 s] by (simp add: ensureApple_def)

lemma updateRocket_idle: "rocketActive s = None \<Longrightarrow> updateRocket s nowMs = s"
  by (simp add: updateRocket_def)

lemma newHeadOf_solid:
  "walls s \<noteq> ''wrap'' \<Longrightarrow>
   newHeadOf s head = (fst head + fst (direction s), snd head + snd (direction s))"
  by (simp add: newHeadOf_def)

lemma newHeadOf_wrap:
  "walls s = ''wrap'' \<Longrightarrow>
   newHeadOf s head = ((fst head + fst (direction s) + 25) smod 25,
                       (snd head + snd (direction s) + 25) smod 25)"
  by (simp add: newHeadOf_def gridWidth_eq gridHeight_eq)

lemma outOfBounds_iff: "outOfBounds c \<longleftrightarrow> fst c < 0 \<or> snd c < 0 \<or> 25 \<le> fst c \<or> 25 \<le> snd c"
  by (simp add: outOfBounds_def gridWidth_eq gridHeight_eq)

lemma demo_fields:
  "snake demoState = [(5, 5), (4, 5), (3, 5)]" "direction demoState = (1, 0)"
  "pendingDirection demoState = (1, 0)" "apples demoState = [(6, 5)]" "bomb demoState = None"
  "magnet demoState = None" "magnetActive demoState = False" "magnetUntil demoState = 0"
  "rocket demoState = None" "rocketActive demoState = None" "score demoState = 0"
  "best demoState = 0" "running demoState = True" "paused demoState = False"
  "walls demoState = ''solid''" "speedMs demoState = 210" "lastTick demoState = 1000"
  "rnd demoState = (\<lambda>n. 1 / 2)" "rndPos demoState = 0"
  by (simp_all add: demoState_def)

section \<open>Growth per tick\<close>

text \<open>
  C1. A tick that completes leaves the snake as long as it was when no growth source fired,
  and exactly one segment longer when one or more fired: the flag \<^verbatim>\<open>grewThisTick\<close> skips one
  tail removal, however many sources set it and however many apples the magnet took.
\<close>

theorem tick_growth_is_one_flag:
  assumes "tick s nowMs = Some (Inr (Completed s'))" and "snake s = head # rest"
  shows "length (snake s') =
           length (snake s)
           + (if growthSourcesFired (unshifted s nowMs head) (newHeadOf (latch s nowMs) head) nowMs = 0
              then 0 else 1)"
  using tick_Completed_snake [OF assms] assms(2) by simp

lemma magnet_head: "newHeadOf (latch magnetState 1210) (9, 10) = (10, 10)"
  by (simp add: newHeadOf_solid latch_def magnetState_def demo_fields)

lemma magnet_unshifted:
  "unshifted magnetState 1210 (9, 10) =
     magnetState\<lparr>snake := [(10, 10), (9, 10), (8, 10), (7, 10)], lastTick := 1210\<rparr>"
  by (simp add: unshifted_def magnet_head) (simp add: latch_def magnetState_def demoState_def)

lemma magnet_pickups:
  "collectPickups (unshifted magnetState 1210 (9, 10)) (10, 10) 1210 =
     (magnetState\<lparr>snake := [(10, 10), (9, 10), (8, 10), (7, 10)], lastTick := 1210,
        apples := [(11, 10), (13, 10), (15, 10)], score := 10\<rparr>, True)"
  unfolding magnet_unshifted
  by (simp add: collectPickups_def collectBombOrApple_apple collectMagnet_miss
      collectRocket_miss magnetState_def demo_fields)

lemma magnet_effect:
  "magnetEffect (collectPickups (unshifted magnetState 1210 (9, 10)) (10, 10) 1210) 1210 =
     Inr (magnetState\<lparr>snake := [(10, 10), (9, 10), (8, 10), (7, 10)], lastTick := 1210,
        apples := [(15, 10)], score := 30\<rparr>, True)"
  unfolding magnet_pickups
  by (subst magnetEffect_active [where h = "(10, 10)" and xs = "[(9, 10), (8, 10), (7, 10)]"])
     (simp_all add: magnetState_def demo_fields inMagnetRange_iff)

lemma magnet_tick:
  "tick magnetState 1210 =
     Some (Inr (Completed (magnetState\<lparr>snake := [(10, 10), (9, 10), (8, 10), (7, 10)],
        lastTick := 1210, apples := [(15, 10)], score := 30, rndPos := 2\<rparr>)))"
proof -
  let ?u = "magnetState\<lparr>snake := [(10, 10), (9, 10), (8, 10), (7, 10)], lastTick := 1210,
        apples := [(15, 10)], score := 30\<rparr>"
  have due: "tick magnetState 1210 = tickBody (unshifted magnetState 1210 (9, 10)) (10, 10) 1210"
    by (subst tick_due [where head = "(9, 10)" and rest = "[(8, 10), (7, 10)]"])
       (simp_all add: magnetState_def demo_fields magnet_head [unfolded magnetState_def]
          outOfBounds_iff)
  have 3: "ensureApple (finalizeMovement (?u, True)) = Some (Inr ?u)"
    by (simp add: finalizeMovement_def ensureApple_keep)
  have 4: "maybeSpawnBomb ?u = Some (Inr (?u\<lparr>rndPos := 1\<rparr>))"
    by (simp add: maybeSpawnBomb_no_roll magnetState_def demo_fields)
  have 5: "maybeSpawnMagnet (?u\<lparr>rndPos := 1\<rparr>) = Some (Inr (?u\<lparr>rndPos := 1\<rparr>))"
    by (simp add: maybeSpawnMagnet_guard magnetState_def)
  have 6: "maybeSpawnRocket (?u\<lparr>rndPos := 1\<rparr>) = Some (Inr (?u\<lparr>rndPos := 2\<rparr>))"
    by (simp add: maybeSpawnRocket_no_roll magnetState_def demo_fields)
  show ?thesis
    unfolding due tickBody_eval [OF magnet_effect 3 4 5 6]
    by (simp add: updateRocket_idle magnetState_def demo_fields)
qed


lemma magnet_sources:
  "growthSourcesFired (unshifted magnetState 1210 (9, 10)) (10, 10) 1210 = 2"
  unfolding growthSourcesFired_def magnetCollectFired_def magnet_pickups
  unfolding magnet_unshifted
  by (simp add: bombPickupFired_def applePickupFired_def magnetPickupFired_def
      rocketPickupFired_def inMagnetRange_iff magnetState_def demo_fields)

theorem tick_growth_is_one_flag_witness:
  "tick magnetState 1210 =
     Some (Inr (Completed (magnetState\<lparr>snake := [(10, 10), (9, 10), (8, 10), (7, 10)],
        lastTick := 1210, apples := [(15, 10)], score := 30, rndPos := 2\<rparr>)))
   \<and> growthSourcesFired (unshifted magnetState 1210 (9, 10)) (10, 10) 1210 = 2
   \<and> length (snake magnetState) = 3
   \<and> length (snake (magnetState\<lparr>snake := [(10, 10), (9, 10), (8, 10), (7, 10)],
        lastTick := 1210, apples := [(15, 10)], score := 30, rndPos := 2\<rparr>))
      = length (snake magnetState) + 1"
  using tick_growth_is_one_flag [OF magnet_tick, of "(9, 10)" "[(8, 10), (7, 10)]"]
    magnet_tick magnet_sources
  by (simp add: magnet_head) (simp add: magnetState_def demo_fields)

section \<open>Ticks that end the game\<close>

lemma gameOver_eq:
  "gameOver s = s\<lparr>running := False, best := (if score s > best s then score s else best s)\<rparr>"
  by (simp add: gameOver_def)

text \<open>
  C2. In a tick that is due, a new head off the grid under solid walls, or a new head (after
  the wrap, if any) on a segment of the snake, ends the game: the result is the game-over
  state of the latched state, in which the snake, the apples, every pickup and the random
  generator are those before the tick, so nothing is inserted, collected or spawned. No
  assumption is made on what the colliding cell holds.
\<close>

theorem collision_ends_game:
  assumes "running s" and "\<not> paused s"
    and "\<not> nowMs - (if lastTick s = 0 then nowMs else lastTick s) < speedMs s"
    and "snake s = head # rest"
    and "(walls s = ''solid'' \<and> outOfBounds (newHeadOf (latch s nowMs) head))
         \<or> newHeadOf (latch s nowMs) head \<in> set (snake s)"
  shows "tick s nowMs = Some (Inr (GameOver (gameOver (latch s nowMs))))
       \<and> \<not> running (gameOver (latch s nowMs))
       \<and> snake (gameOver (latch s nowMs)) = snake s
       \<and> apples (gameOver (latch s nowMs)) = apples s
       \<and> score (gameOver (latch s nowMs)) = score s
       \<and> bomb (gameOver (latch s nowMs)) = bomb s
       \<and> magnet (gameOver (latch s nowMs)) = magnet s
       \<and> magnetActive (gameOver (latch s nowMs)) = magnetActive s
       \<and> rocket (gameOver (latch s nowMs)) = rocket s
       \<and> rocketActive (gameOver (latch s nowMs)) = rocketActive s
       \<and> rndPos (gameOver (latch s nowMs)) = rndPos s"
  using assms(5) unfolding tick_due [OF assms(1-4)]
  by (simp add: gameOver_eq latch_def)

lemma selfHit_fields:
  "snake selfHitState = [(5, 5), (5, 4), (4, 4), (4, 5), (4, 6)]"
  "pendingDirection selfHitState = (- 1, 0)" "bomb selfHitState = Some (4, 5)"
  "running selfHitState" "\<not> paused selfHitState" "lastTick selfHitState = 1000"
  "speedMs selfHitState = 210" "walls selfHitState = ''solid''" "score selfHitState = 30"
  "best selfHitState = 20"
  by (simp_all add: selfHitState_def demo_fields)

lemma selfHit_head: "newHeadOf (latch selfHitState 1210) (5, 5) = (4, 5)"
  by (simp add: newHeadOf_solid latch_def selfHit_fields)

theorem collision_ends_game_witness:
  "newHeadOf (latch selfHitState 1210) (5, 5) = (4, 5)
   \<and> (4, 5) \<in> set (snake selfHitState) \<and> bomb selfHitState = Some (4, 5)
   \<and> tick selfHitState 1210 = Some (Inr (GameOver (gameOver (latch selfHitState 1210))))
   \<and> \<not> running (gameOver (latch selfHitState 1210))
   \<and> snake (gameOver (latch selfHitState 1210)) = [(5, 5), (5, 4), (4, 4), (4, 5), (4, 6)]
   \<and> bomb (gameOver (latch selfHitState 1210)) = Some (4, 5)
   \<and> best (gameOver (latch selfHitState 1210)) = 30"
  using collision_ends_game [of selfHitState 1210 "(5, 5)" "[(5, 4), (4, 4), (4, 5), (4, 6)]"]
  by (simp add: selfHit_head selfHit_fields) (simp add: gameOver_eq latch_def selfHit_fields)

text \<open>
  C10, as amended. A tick that ends the game changes four fields and nothing else: the
  running flag, the best score when the score exceeds it, and also the current direction
  (the pending direction is applied before the collision test) and the time stamp
  \<open>lastTick\<close>. The snake, the apples, the score, the bomb, the magnet item and effect, the
  rocket item and the flying rocket are those before the tick.
\<close>

theorem game_over_tick_frame:
  assumes "tick s nowMs = Some (Inr (GameOver g))"
  shows "g = s\<lparr>lastTick := nowMs, direction := pendingDirection s, running := False,
              best := (if score s > best s then score s else best s)\<rparr>"
proof -
  from tick_GameOver_D [OF assms] have "g = gameOver (latch s nowMs)"
    by blast
  then show ?thesis
    by (simp add: gameOver_eq latch_def)
qed

lemma wallHit_fields:
  "snake wallHitState = [(5, 0), (4, 0), (3, 0)]" "pendingDirection wallHitState = (0, - 1)"
  "direction wallHitState = (1, 0)"
  "running wallHitState" "\<not> paused wallHitState" "lastTick wallHitState = 1000"
  "speedMs wallHitState = 210" "walls wallHitState = ''solid''" "score wallHitState = 0"
  "best wallHitState = 0"
  by (simp_all add: wallHitState_def demo_fields)

lemma wallHit_head: "newHeadOf (latch wallHitState 1210) (5, 0) = (5, - 1)"
  by (simp add: newHeadOf_solid latch_def wallHit_fields)

lemma wallHit_tick:
  "tick wallHitState 1210 =
     Some (Inr (GameOver (wallHitState\<lparr>lastTick := 1210, direction := (0, - 1), running := False\<rparr>)))"
proof -
  have "tick wallHitState 1210 = Some (Inr (GameOver (gameOver (latch wallHitState 1210))))"
    by (subst tick_due [where head = "(5, 0)" and rest = "[(4, 0), (3, 0)]"])
       (simp_all add: wallHit_fields wallHit_head outOfBounds_iff)
  then show ?thesis
    by (simp add: gameOver_eq latch_def wallHit_fields)
qed

theorem game_over_tick_frame_witness:
  "wallHitState\<lparr>lastTick := 1210, direction := (0, - 1), running := False\<rparr> =
     wallHitState\<lparr>lastTick := 1210, direction := pendingDirection wallHitState, running := False,
        best := (if score wallHitState > best wallHitState then score wallHitState
                 else best wallHitState)\<rparr>"
  using game_over_tick_frame [OF wallHit_tick] .

text \<open>
  C10 as stated fails: in the tick below the head runs into the top wall, and the state
  handed to game-over differs from the state before the tick in \<open>direction\<close> and
  \<open>lastTick\<close> as well.
\<close>

theorem game_over_changes_direction:
  "tick wallHitState 1210 =
     Some (Inr (GameOver (wallHitState\<lparr>lastTick := 1210, direction := (0, - 1), running := False\<rparr>)))
   \<and> \<not> onlyRunningAndBestChange wallHitState
         (wallHitState\<lparr>lastTick := 1210, direction := (0, - 1), running := False\<rparr>)
   \<and> direction wallHitState = (1, 0)
   \<and> direction (wallHitState\<lparr>lastTick := 1210, direction := (0, - 1), running := False\<rparr>) = (0, - 1)"
proof -
  let ?g = "wallHitState\<lparr>lastTick := 1210, direction := (0, - 1), running := False\<rparr>"
  have "\<not> onlyRunningAndBestChange wallHitState ?g"
  proof
    assume "onlyRunningAndBestChange wallHitState ?g"
    then have "?g = wallHitState\<lparr>running := running ?g, best := best ?g\<rparr>"
      by (simp only: onlyRunningAndBestChange_def)
    then have "direction ?g = direction (wallHitState\<lparr>running := running ?g, best := best ?g\<rparr>)"
      by (rule arg_cong)
    then show False
      by (simp add: wallHit_fields)
  qed
  then show ?thesis
    by (simp add: wallHit_tick wallHit_fields)
qed

section \<open>Wrapping walls\<close>

lemma smod_25_range: "0 \<le> k \<Longrightarrow> 0 \<le> k smod 25 \<and> k smod 25 < (25::int)"
  by (simp add: signed_modulo_int_def sgn_if)

lemma newHeadOf_wrap_in_bounds:
  assumes "walls s = ''wrap''" and "\<not> outOfBounds head" and "isDirection (direction s)"
  shows "\<not> outOfBounds (newHeadOf s head)"
proof -
  from assms(2) have h: "0 \<le> fst head" "0 \<le> snd head"
    by (simp_all add: outOfBounds_iff)
  from assms(3) have d: "- 1 \<le> fst (direction s)" "- 1 \<le> snd (direction s)"
    by (auto simp: isDirection_def)
  from h d have "0 \<le> fst head + fst (direction s) + 25" "0 \<le> snd head + snd (direction s) + 25"
    by simp_all
  then show ?thesis
    using smod_25_range [of "fst head + fst (direction s) + 25"]
      smod_25_range [of "snd head + snd (direction s) + 25"]
    by (simp add: newHeadOf_wrap [OF assms(1)] outOfBounds_iff)
qed

text \<open>
  C9. With wrapping walls, a head on the grid and one of the four unit steps pending, the
  head the tick computes is on the grid again (a coordinate of -1 before the wrap becomes
  24); when the tick completes, that cell is the head of the snake.
\<close>

theorem wrap_keeps_head_in_bounds:
  assumes "walls s = ''wrap''" and "\<not> outOfBounds head" and "isDirection (pendingDirection s)"
  shows "\<not> outOfBounds (newHeadOf (latch s nowMs) head)
       \<and> (\<forall>s' rest. snake s = head # rest \<and> tick s nowMs = Some (Inr (Completed s'))
            \<longrightarrow> snake s' \<noteq> [] \<and> hd (snake s') = newHeadOf (latch s nowMs) head)"
proof (intro conjI allI impI)
  show "\<not> outOfBounds (newHeadOf (latch s nowMs) head)"
    using assms by (intro newHeadOf_wrap_in_bounds) (simp_all add: latch_def)
next
  fix s' rest
  assume a: "snake s = head # rest \<and> tick s nowMs = Some (Inr (Completed s'))"
  then have "snake s' =
     (if growthSourcesFired (unshifted s nowMs head) (newHeadOf (latch s nowMs) head) nowMs = 0
      then newHeadOf (latch s nowMs) head # butlast (snake s)
      else newHeadOf (latch s nowMs) head # snake s)"
    by (intro tick_Completed_snake) simp_all
  then show "snake s' \<noteq> []" and "hd (snake s') = newHeadOf (latch s nowMs) head"
    by (simp_all split: if_splits)
qed

lemma wrap_fields:
  "snake wrapState = [(0, 5), (1, 5), (2, 5)]" "pendingDirection wrapState = (- 1, 0)"
  "direction wrapState = (- 1, 0)" "apples wrapState = [(6, 5)]"
  "running wrapState" "\<not> paused wrapState" "lastTick wrapState = 1000"
  "speedMs wrapState = 210" "walls wrapState = ''wrap''" "bomb wrapState = None"
  "magnet wrapState = None" "rocket wrapState = None" "rocketActive wrapState = None"
  "\<not> magnetActive wrapState" "rnd wrapState = (\<lambda>n. 1 / 2)" "rndPos wrapState = 0"
  by (simp_all add: wrapState_def demo_fields)

lemma wrap_head: "newHeadOf (latch wrapState 1210) (0, 5) = (24, 5)"
  by (simp add: newHeadOf_wrap latch_def wrap_fields signed_modulo_int_def)

lemma wrap_tick:
  "tick wrapState 1210 =
     Some (Inr (Completed (wrapState\<lparr>snake := [(24, 5), (0, 5), (1, 5)], lastTick := 1210,
        rndPos := 3\<rparr>)))"
proof -
  let ?t = "wrapState\<lparr>snake := [(24, 5), (0, 5), (1, 5), (2, 5)], lastTick := 1210\<rparr>"
  have t: "unshifted wrapState 1210 (0, 5) = ?t"
    by (simp add: unshifted_def wrap_head) (simp add: latch_def wrapState_def demoState_def)
  have due: "tick wrapState 1210 = tickBody (unshifted wrapState 1210 (0, 5)) (24, 5) 1210"
    by (subst tick_due [where head = "(0, 5)" and rest = "[(1, 5), (2, 5)]"])
       (simp_all add: wrap_fields wrap_head outOfBounds_iff)
  have 1: "collectPickups (unshifted wrapState 1210 (0, 5)) (24, 5) 1210 = (?t, False)"
    unfolding t
    by (simp add: collectPickups_def collectBombOrApple_none collectMagnet_miss
        collectRocket_miss wrap_fields)
  have 2: "magnetEffect (collectPickups (unshifted wrapState 1210 (0, 5)) (24, 5) 1210) 1210
             = Inr (?t, False)"
    unfolding 1 by (simp add: magnetEffect_inactive wrap_fields)
  let ?u = "wrapState\<lparr>snake := [(24, 5), (0, 5), (1, 5)], lastTick := 1210\<rparr>"
  have 3: "ensureApple (finalizeMovement (?t, False)) = Some (Inr ?u)"
    by (simp add: finalizeMovement_def ensureApple_keep wrap_fields)
  have 4: "maybeSpawnBomb ?u = Some (Inr (?u\<lparr>rndPos := 1\<rparr>))"
    by (simp add: maybeSpawnBomb_no_roll wrap_fields)
  have 5: "maybeSpawnMagnet (?u\<lparr>rndPos := 1\<rparr>) = Some (Inr (?u\<lparr>rndPos := 2\<rparr>))"
    by (simp add: maybeSpawnMagnet_no_roll wrap_fields)
  have 6: "maybeSpawnRocket (?u\<lparr>rndPos := 2\<rparr>) = Some (Inr (?u\<lparr>rndPos := 3\<rparr>))"
    by (simp add: maybeSpawnRocket_no_roll wrap_fields)
  show ?thesis
    unfolding due tickBody_eval [OF 2 3 4 5 6]
    by (simp add: updateRocket_idle wrap_fields)
qed

theorem wrap_keeps_head_in_bounds_witness:
  "newHeadOf (latch wrapState 1210) (0, 5) = (24, 5) \<and> \<not> outOfBounds (24, 5)
   \<and> tick wrapState 1210 =
        Some (Inr (Completed (wrapState\<lparr>snake := [(24, 5), (0, 5), (1, 5)], lastTick := 1210,
          rndPos := 3\<rparr>)))
   \<and> hd (snake (wrapState\<lparr>snake := [(24, 5), (0, 5), (1, 5)], lastTick := 1210,
          rndPos := 3\<rparr>)) = (24, 5)"
  using wrap_keeps_head_in_bounds [of wrapState "(0, 5)" 1210] wrap_tick
  by (simp add: wrap_fields wrap_head outOfBounds_iff isDirection_def)

section \<open>Reachable states\<close>

lemma initGame_D:
  assumes "initGame s = Some s'"
  shows "magnet s' = None \<and> \<not> magnetActive s' \<and> rocket s' = None \<and> rocketActive s' = None
       \<and> bomb s' = None \<and> pendingDirection s' = (1, 0) \<and> direction s' = (1, 0)
       \<and> snake s' \<noteq> [] \<and> walls s' = walls s"
proof -
  let ?s1 = "s\<lparr>snake := [(\<lfloor>real_of_int gridWidth / 3\<rfloor> + 2, \<lfloor>real_of_int gridHeight / 2\<rfloor>),
                        (\<lfloor>real_of_int gridWidth / 3\<rfloor> + 1, \<lfloor>real_of_int gridHeight / 2\<rfloor>),
                        (\<lfloor>real_of_int gridWidth / 3\<rfloor>, \<lfloor>real_of_int gridHeight / 2\<rfloor>)],
                direction := (1, 0), pendingDirection := (1, 0)\<rparr>"
  from assms obtain y where y: "randomEmptyCellTotal ?s1 = Some y"
    and s': "s' = (snd y)\<lparr>apples := [fst y], bomb := None, rocket := None, rocketActive := None,
                      magnet := None, magnetActive := False, magnetUntil := 0, score := 0,
                      running := False, paused := False, lastTick := 0\<rparr>"
    by (auto simp: initGame_def Let_def split: option.splits)
  from search_Some_D [OF y] obtain k where "snd y = ?s1\<lparr>rndPos := rndPos ?s1 + 2 * k + 2\<rparr>"
    by blast
  then show ?thesis
    unfolding s' by simp
qed

lemma tick_not_due:
  "\<not> running s \<or> paused s \<Longrightarrow> tick s nowMs = Some (Inr (Suspended s))"
  "running s \<Longrightarrow> \<not> paused s \<Longrightarrow>
   nowMs - (if lastTick s = 0 then nowMs else lastTick s) < speedMs s \<Longrightarrow>
   tick s nowMs = Some (Inr (Waiting (if lastTick s = 0 then s\<lparr>lastTick := nowMs\<rparr> else s)))"
  by (auto simp: tick_def Let_def)

lemma tick_empty_snake:
  "running s \<Longrightarrow> \<not> paused s \<Longrightarrow>
   \<not> nowMs - (if lastTick s = 0 then nowMs else lastTick s) < speedMs s \<Longrightarrow> snake s = [] \<Longrightarrow>
   tick s nowMs = Some (Inl TypeError)"
  by (auto simp: tick_def Let_def latch_def)

text \<open>What a tick that returns makes of the state, outcome by outcome.\<close>

lemma tick_outcome_cases:
  assumes "tick s nowMs = Some (Inr out)"
  shows "(out = Suspended s)
       \<or> (out = Waiting (if lastTick s = 0 then s\<lparr>lastTick := nowMs\<rparr> else s))
       \<or> (out = GameOver (gameOver (latch s nowMs)))
       \<or> (\<exists>s'. out = Completed s')"
proof (cases "\<not> running s \<or> paused s")
  case True
  with assms show ?thesis by (simp add: tick_not_due(1))
next
  case run: False
  show ?thesis
  proof (cases "nowMs - (if lastTick s = 0 then nowMs else lastTick s) < speedMs s")
    case True
    with run assms show ?thesis by (simp add: tick_not_due(2))
  next
    case due: False
    show ?thesis
    proof (cases "snake s")
      case Nil
      with run due assms show ?thesis by (simp add: tick_empty_snake)
    next
      case (Cons head rest)
      from run have r: "running s" "\<not> paused s" by simp_all
      show ?thesis
      proof (cases out)
        case (Suspended x)
        with assms show ?thesis
          unfolding tick_due [OF r due Cons] by (simp add: tickBody_not_other split: if_splits)
      next
        case (Waiting x)
        with assms show ?thesis
          unfolding tick_due [OF r due Cons] by (simp add: tickBody_not_other split: if_splits)
      next
        case (GameOver x)
        with assms tick_GameOver_D [of s nowMs x] show ?thesis by auto
      next
        case (Completed x)
        then show ?thesis by simp
      qed
    qed
  qed
qed

lemma reachable_invariant:
  assumes "reachable s"
  shows "(magnetActive s \<longrightarrow> magnet s = None) \<and> (rocketActive s \<noteq> None \<longrightarrow> rocket s = None)
       \<and> isDirection (pendingDirection s) \<and> isDirection (direction s) \<and> snake s \<noteq> []"
  using assms
proof (induction rule: reachable.induct)
  case (boot wallsValue s0 diff s)
  from initGame_D [OF boot(2)] show ?case by (simp add: isDirection_def)
next
  case (frame s nowMs out)
  from frame.IH obtain head rest where sn: "snake s = head # rest"
    by (cases "snake s") auto
  from tick_outcome_cases [OF frame.hyps(2)] show ?case
  proof (elim disjE exE)
    assume "out = Suspended s"
    with frame.IH show ?thesis by (simp add: stateOf_def)
  next
    assume "out = Waiting (if lastTick s = 0 then s\<lparr>lastTick := nowMs\<rparr> else s)"
    with frame.IH show ?thesis by (simp add: stateOf_def)
  next
    assume "out = GameOver (gameOver (latch s nowMs))"
    with frame.IH show ?thesis by (simp add: stateOf_def gameOver_eq latch_def)
  next
    fix s' assume out: "out = Completed s'"
    with frame.hyps(2) have t: "tick s nowMs = Some (Inr (Completed s'))" by simp
    from frame.IH have inv: "magnetActive s \<longrightarrow> magnet s = None"
      "rocketActive s \<noteq> None \<longrightarrow> rocket s = None" by simp_all
    note p = tick_Completed_pickups [OF t sn]
    from tick_Completed_snake [OF t sn] have "snake s' \<noteq> []" by (simp split: if_splits)
    with p(4) [OF inv(1)] p(5) [OF inv(2)] p(6,7) frame.IH show ?thesis
      by (simp add: out stateOf_def)
  qed
next
  case (start s)
  then show ?case by (simp add: startGame_def)
next
  case (pause s)
  then show ?case by (simp add: togglePause_def)
next
  case (restart s s')
  from initGame_D [OF restart.hyps(2)] show ?case by (simp add: isDirection_def)
next
  case (turn s nx ny)
  then show ?case by (simp add: setDirectionFromInput_def)
next
  case (settings s wallsValue diff)
  then show ?case by (simp add: applySettingsFromUI_def)
qed

lemma reachable_direction: "reachable s \<Longrightarrow> isDirection (pendingDirection s)"
  by (simp add: reachable_invariant)

text \<open>
  C6. The bomb, the magnet item, the rocket item and the flying rocket are each one
  variable holding a cell, an entity or nothing, so there is never more than one of a kind.
  In every reachable state the magnet item is absent while the magnet effect is on, and the
  rocket item is absent while a rocket flies; and a spawn routine called while its item
  exists (or, for magnet and rocket, while the effect is on or a rocket flies) returns the
  state as it is, without a roll.
\<close>

theorem one_pickup_of_each_kind:
  assumes "reachable s"
  shows "(magnetActive s \<longrightarrow> magnet s = None) \<and> (rocketActive s \<noteq> None \<longrightarrow> rocket s = None)
       \<and> (bomb s \<noteq> None \<longrightarrow> maybeSpawnBomb s = Some (Inr s))
       \<and> (magnet s \<noteq> None \<or> magnetActive s \<longrightarrow> maybeSpawnMagnet s = Some (Inr s))
       \<and> (rocket s \<noteq> None \<or> rocketActive s \<noteq> None \<longrightarrow> maybeSpawnRocket s = Some (Inr s))"
  using reachable_invariant [OF assms]
  by (simp add: maybeSpawnBomb_guard maybeSpawnMagnet_guard maybeSpawnRocket_guard)

lemma maybeSpawnBomb_spawn:
  assumes "bomb s = None" and "rnd s (rndPos s) < 0.02" and "apples s \<noteq> []"
    and "\<not> isCellOccupied s (nthCandidate (s\<lparr>rndPos := Suc (rndPos s)\<rparr>) 0)"
    and "snake s = head # rest"
    and "16 < (fst (nthCandidate (s\<lparr>rndPos := Suc (rndPos s)\<rparr>) 0) - fst head)\<^sup>2
            + (snd (nthCandidate (s\<lparr>rndPos := Suc (rndPos s)\<rparr>) 0) - snd head)\<^sup>2"
  shows "maybeSpawnBomb s =
           Some (Inr (s\<lparr>rndPos := rndPos s + 3,
                        bomb := Some (nthCandidate (s\<lparr>rndPos := Suc (rndPos s)\<rparr>) 0)\<rparr>))"
proof -
  let ?s1 = "s\<lparr>rndPos := Suc (rndPos s)\<rparr>"
  have "randomEmptyCellTotal ?s1 = Some (nthCandidate ?s1 0, ?s1\<lparr>rndPos := rndPos ?s1 + 2 * 0 + 2\<rparr>)"
    using assms(4) by (intro search_returns) (simp_all add: isCellOccupied_rndPos)
  then have r: "randomEmptyCellTotal ?s1 = Some (nthCandidate ?s1 0, s\<lparr>rndPos := rndPos s + 3\<rparr>)"
    by simp
  have len: "1 \<le> length (apples s)"
    using assms(3) by (cases "apples s") simp_all
  show ?thesis
    unfolding maybeSpawnBomb_def Let_def fst_random snd_random
    using assms(1,2,5,6) len
    by (simp add: r hypot_gt4_iff [symmetric])
qed

lemma page_boot:
  "initGame (applySettingsFromUI pageState ''normal'' ''solid'') = Some bootState"
proof -
  let ?s1 = "pageState\<lparr>speedMs := 210, snake := [(10, 12), (9, 12), (8, 12)]\<rparr>"
  have "randomEmptyCellTotal ?s1 = Some (nthCandidate ?s1 0, ?s1\<lparr>rndPos := rndPos ?s1 + 2 * 0 + 2\<rparr>)"
    by (intro search_returns)
       (simp_all add: isCellOccupied_iff nthCandidate_def pageState_def bootRolls_def
          gridWidth_eq gridHeight_eq)
  then have "randomEmptyCellTotal ?s1 = Some ((12, 12), ?s1\<lparr>rndPos := 2\<rparr>)"
    by (simp add: nthCandidate_def pageState_def bootRolls_def gridWidth_eq gridHeight_eq)
  moreover have "(applySettingsFromUI pageState ''normal'' ''solid'')
      \<lparr>snake := [(\<lfloor>real_of_int gridWidth / 3\<rfloor> + 2, \<lfloor>real_of_int gridHeight / 2\<rfloor>),
                  (\<lfloor>real_of_int gridWidth / 3\<rfloor> + 1, \<lfloor>real_of_int gridHeight / 2\<rfloor>),
                  (\<lfloor>real_of_int gridWidth / 3\<rfloor>, \<lfloor>real_of_int gridHeight / 2\<rfloor>)],
        direction := (1, 0), pendingDirection := (1, 0)\<rparr> = ?s1"
    by (simp add: applySettingsFromUI_def gridWidth_eq gridHeight_eq pageState_def)
  ultimately show ?thesis
    unfolding initGame_def Let_def
    by (simp add: bootState_def pageState_def)
qed

lemma boot_fields:
  "snake bootState = [(10, 12), (9, 12), (8, 12)]" "pendingDirection bootState = (1, 0)"
  "direction bootState = (1, 0)" "apples bootState = [(12, 12)]"
  "\<not> running bootState" "\<not> paused bootState" "lastTick bootState = 0"
  "speedMs bootState = 210" "walls bootState = ''solid''" "bomb bootState = None"
  "magnet bootState = None" "rocket bootState = None" "rocketActive bootState = None"
  "\<not> magnetActive bootState" "rnd bootState = bootRolls" "rndPos bootState = 2"
  by (simp_all add: bootState_def pageState_def)

lemma boot_first_frame:
  "tick (startGame bootState) 1000 =
     Some (Inr (Waiting (bootState\<lparr>running := True, lastTick := 1000\<rparr>)))"
  by (subst tick_not_due(2)) (simp_all add: startGame_def boot_fields)

lemma boot_second_frame:
  "tick (bootState\<lparr>running := True, lastTick := 1000\<rparr>) 1210 =
     Some (Inr (Completed bombSpawnedState))"
proof -
  let ?s = "bootState\<lparr>running := True, lastTick := 1000\<rparr>"
  let ?t = "bootState\<lparr>running := True, lastTick := 1210,
               snake := [(11, 12), (10, 12), (9, 12), (8, 12)]\<rparr>"
  have head: "newHeadOf (latch ?s 1210) (10, 12) = (11, 12)"
    by (simp add: newHeadOf_solid latch_def boot_fields)
  have t: "unshifted ?s 1210 (10, 12) = ?t"
    by (simp add: unshifted_def head) (simp add: latch_def bootState_def pageState_def)
  have due: "tick ?s 1210 = tickBody (unshifted ?s 1210 (10, 12)) (11, 12) 1210"
    by (subst tick_due [where head = "(10, 12)" and rest = "[(9, 12), (8, 12)]"])
       (simp_all add: boot_fields head outOfBounds_iff)
  have 1: "collectPickups (unshifted ?s 1210 (10, 12)) (11, 12) 1210 = (?t, False)"
    unfolding t
    by (simp add: collectPickups_def collectBombOrApple_none collectMagnet_miss
        collectRocket_miss boot_fields)
  have 2: "magnetEffect (collectPickups (unshifted ?s 1210 (10, 12)) (11, 12) 1210) 1210
             = Inr (?t, False)"
    unfolding 1 by (simp add: magnetEffect_inactive boot_fields)
  let ?u = "bootState\<lparr>running := True, lastTick := 1210,
               snake := [(11, 12), (10, 12), (9, 12)]\<rparr>"
  have 3: "ensureApple (finalizeMovement (?t, False)) = Some (Inr ?u)"
    by (simp add: finalizeMovement_def ensureApple_keep boot_fields)
  have cand: "nthCandidate (?u\<lparr>rndPos := 3\<rparr>) 0 = (20, 20)"
    by (simp add: nthCandidate_def boot_fields bootRolls_def gridWidth_eq gridHeight_eq)
  have 4: "maybeSpawnBomb ?u = Some (Inr (?u\<lparr>rndPos := 5, bomb := Some (20, 20)\<rparr>))"
    by (subst maybeSpawnBomb_spawn [where head = "(11, 12)" and rest = "[(10, 12), (9, 12)]"])
       (simp_all add: cand boot_fields bootRolls_def isCellOccupied_iff)
  have 5: "maybeSpawnMagnet (?u\<lparr>rndPos := 5, bomb := Some (20, 20)\<rparr>)
             = Some (Inr (?u\<lparr>rndPos := 6, bomb := Some (20, 20)\<rparr>))"
    by (simp add: maybeSpawnMagnet_no_roll boot_fields bootRolls_def)
  have 6: "maybeSpawnRocket (?u\<lparr>rndPos := 6, bomb := Some (20, 20)\<rparr>)
             = Some (Inr (?u\<lparr>rndPos := 7, bomb := Some (20, 20)\<rparr>))"
    by (simp add: maybeSpawnRocket_no_roll boot_fields bootRolls_def)
  show ?thesis
    unfolding due tickBody_eval [OF 2 3 4 5 6]
    by (simp add: updateRocket_idle boot_fields bombSpawnedState_def)
qed

lemma bombSpawned_reachable: "reachable bombSpawnedState"
proof -
  have "reachable bootState"
    using page_boot by (intro reachable.boot [where wallsValue = "''solid''"]) simp_all
  then have "reachable (startGame bootState)"
    by (rule reachable.start)
  from reachable.frame [OF this boot_first_frame]
  have "reachable (bootState\<lparr>running := True, lastTick := 1000\<rparr>)"
    by (simp add: stateOf_def)
  from reachable.frame [OF this boot_second_frame] show ?thesis
    by (simp add: stateOf_def)
qed

theorem one_pickup_of_each_kind_witness:
  "reachable bombSpawnedState \<and> bomb bombSpawnedState = Some (20, 20)
   \<and> maybeSpawnBomb bombSpawnedState = Some (Inr bombSpawnedState)
   \<and> magnet bombSpawnedState = None \<and> rocket bombSpawnedState = None"
  using one_pickup_of_each_kind [OF bombSpawned_reachable] bombSpawned_reachable
  by (simp add: bombSpawnedState_def boot_fields)

section \<open>The magnet\<close>












section \<open>The free-cell search\<close>

lemma nthCandidate_in_bounds:
  assumes "\<forall>n. 0 \<le> rnd s n \<and> rnd s n < 1"
  shows "\<not> outOfBounds (nthCandidate s k)"
proof -
  have "0 \<le> \<lfloor>r * 25\<rfloor> \<and> \<lfloor>r * 25\<rfloor> < 25" if "0 \<le> r" "r < 1" for r :: real
    using that by (simp add: floor_less_iff)
  with assms show ?thesis
    by (simp add: nthCandidate_def outOfBounds_iff gridWidth_eq gridHeight_eq not_less not_le)
qed

lemma search_full_grid:
  assumes "\<forall>n. 0 \<le> rnd s n \<and> rnd s n < 1" and "\<forall>c. \<not> outOfBounds c \<longrightarrow> isCellOccupied s c"
  shows "randomEmptyCellTotal s = None"
  unfolding search_None_iff using assms(2) nthCandidate_in_bounds [OF assms(1)] by blast

lemma ensureApple_diverges:
  "apples s = [] \<Longrightarrow> randomEmptyCellTotal s = None \<Longrightarrow> ensureApple s = None"
  by (simp add: ensureApple_def)

lemma maybeSpawnMagnet_diverges:
  "magnet s = None \<Longrightarrow> \<not> magnetActive s \<Longrightarrow> rnd s (rndPos s) < 0.015 \<Longrightarrow>
   randomEmptyCellTotal (s\<lparr>rndPos := Suc (rndPos s)\<rparr>) = None \<Longrightarrow> maybeSpawnMagnet s = None"
  by (simp add: maybeSpawnMagnet_def Let_def fst_random snd_random)

lemma maybeSpawnRocket_diverges:
  "rocket s = None \<Longrightarrow> rocketActive s = None \<Longrightarrow> rnd s (rndPos s) < 0.012 \<Longrightarrow>
   randomEmptyCellTotal (s\<lparr>rndPos := Suc (rndPos s)\<rparr>) = None \<Longrightarrow> maybeSpawnRocket s = None"
  by (simp add: maybeSpawnRocket_def Let_def fst_random snd_random)

lemma maybeSpawnBomb_diverges:
  "bomb s = None \<Longrightarrow> rnd s (rndPos s) < 0.02 \<Longrightarrow> apples s \<noteq> [] \<Longrightarrow>
   randomEmptyCellTotal (s\<lparr>rndPos := Suc (rndPos s)\<rparr>) = None \<Longrightarrow> maybeSpawnBomb s = None"
  by (cases "apples s") (simp_all add: maybeSpawnBomb_def Let_def fst_random snd_random)

text \<open>
  C5, as amended. The free-cell search has no bound and no sentinel. It returns exactly when
  one of the cells its rolls name is free, and then it returns the first such cell, leaving
  the generator behind the rolls it used. When every cell it can name is occupied, in
  particular when the rolls lie in [0, 1) and the whole grid is occupied, it does not
  return, and neither do the callers that reach it: the respawn step when no apple is left,
  and the three spawn routines when their roll succeeds.
\<close>

theorem free_cell_search_returns_iff:
  "(randomEmptyCellTotal s = None \<longleftrightarrow> (\<forall>k. isCellOccupied s (nthCandidate s k)))
   \<and> (\<forall>c s'. randomEmptyCellTotal s = Some (c, s') \<longrightarrow>
         \<not> isCellOccupied s c
         \<and> (\<exists>k. c = nthCandidate s k \<and> (\<forall>j<k. isCellOccupied s (nthCandidate s j))
                \<and> s' = s\<lparr>rndPos := rndPos s + 2 * k + 2\<rparr>))
   \<and> ((\<forall>n. 0 \<le> rnd s n \<and> rnd s n < 1) \<and> (\<forall>c. \<not> outOfBounds c \<longrightarrow> isCellOccupied s c) \<longrightarrow>
         randomEmptyCellTotal s = None
         \<and> (apples s = [] \<longrightarrow> ensureApple s = None)
         \<and> (bomb s = None \<and> rnd s (rndPos s) < 0.02 \<and> apples s \<noteq> [] \<longrightarrow> maybeSpawnBomb s = None)
         \<and> (magnet s = None \<and> \<not> magnetActive s \<and> rnd s (rndPos s) < 0.015
              \<longrightarrow> maybeSpawnMagnet s = None)
         \<and> (rocket s = None \<and> rocketActive s = None \<and> rnd s (rndPos s) < 0.012
              \<longrightarrow> maybeSpawnRocket s = None))"
proof (intro conjI allI impI)
  show "randomEmptyCellTotal s = None \<longleftrightarrow> (\<forall>k. isCellOccupied s (nthCandidate s k))"
    by (rule search_None_iff)
next
  fix c s' assume r: "randomEmptyCellTotal s = Some (c, s')"
  from search_Some_D [OF r] show "\<not> isCellOccupied s c"
    and "\<exists>k. c = nthCandidate s k \<and> (\<forall>j<k. isCellOccupied s (nthCandidate s j))
                \<and> s' = s\<lparr>rndPos := rndPos s + 2 * k + 2\<rparr>"
    by auto
next
  assume a: "(\<forall>n. 0 \<le> rnd s n \<and> rnd s n < 1) \<and> (\<forall>c. \<not> outOfBounds c \<longrightarrow> isCellOccupied s c)"
  then show full: "randomEmptyCellTotal s = None"
    by (intro search_full_grid) simp_all
  have next_full: "randomEmptyCellTotal (s\<lparr>rndPos := Suc (rndPos s)\<rparr>) = None"
    using a by (intro search_full_grid) (simp_all add: isCellOccupied_rndPos)
  show "ensureApple s = None" if "apples s = []"
    using that full by (rule ensureApple_diverges)
  show "maybeSpawnBomb s = None" if "bomb s = None \<and> rnd s (rndPos s) < 0.02 \<and> apples s \<noteq> []"
    using that next_full by (intro maybeSpawnBomb_diverges) simp_all
  show "maybeSpawnMagnet s = None"
    if "magnet s = None \<and> \<not> magnetActive s \<and> rnd s (rndPos s) < 0.015"
    using that next_full by (intro maybeSpawnMagnet_diverges) simp_all
  show "maybeSpawnRocket s = None"
    if "rocket s = None \<and> rocketActive s = None \<and> rnd s (rndPos s) < 0.012"
    using that next_full by (intro maybeSpawnRocket_diverges) simp_all
qed

lemma fullBoard_fields:
  "apples fullBoard = []" "bomb fullBoard = None" "magnet fullBoard = None"
  "rocket fullBoard = None" "rocketActive fullBoard = None" "\<not> magnetActive fullBoard"
  "rnd fullBoard = cyclicRolls" "rndPos fullBoard = 0"
  "snake fullBoard = serpentine"
  by (simp_all add: fullBoard_def demo_fields)

lemma fullBoard_rolls: "\<forall>n. 0 \<le> rnd fullBoard n \<and> rnd fullBoard n < 1"
proof
  fix n :: nat
  have "n mod 7 < 7" by simp
  then have "real (n mod 7) < real 7" by (simp only: of_nat_less_iff)
  then have "real (n mod 7) < 7" by simp
  then have "real (n mod 7) / 7 < 1"
    by (simp only: divide_less_eq_1_pos zero_less_numeral)
  moreover have "0 \<le> real (n mod 7) / 7"
    by (rule divide_nonneg_nonneg) simp_all
  ultimately show "0 \<le> rnd fullBoard n \<and> rnd fullBoard n < 1"
    unfolding fullBoard_fields cyclicRolls_def by (rule conjI [rotated])
qed

lemma in_concat_map: "j \<in> set js \<Longrightarrow> c \<in> set (F j) \<Longrightarrow> c \<in> set (concat (map F js))"
  by auto

lemma fullBoard_occupied: "\<forall>c. \<not> outOfBounds c \<longrightarrow> isCellOccupied fullBoard c"
proof (intro allI impI)
  fix c :: cell assume "\<not> outOfBounds c"
  then have b: "0 \<le> fst c" "fst c \<le> 24" "0 \<le> snd c" "snd c \<le> 24"
    by (simp_all add: outOfBounds_iff)
  define i where "i = (if even (snd c) then fst c else 24 - fst c)"
  have i: "i \<in> {0..24}" using b by (simp add: i_def)
  have j: "snd c \<in> set [0..24]" using b by (simp only: set_upto) simp
  have "c = (if even (snd c) then i else 24 - i, snd c)"
    by (simp add: i_def prod_eq_iff)
  then have "c \<in> (\<lambda>i. (if even (snd c) then i else 24 - i, snd c)) ` {0..24}"
    using i by (rule image_eqI)
  then have "c \<in> set (map (\<lambda>i. (if even (snd c) then i else 24 - i, snd c)) [0..24])"
    by (simp only: set_map set_upto)
  with j have "c \<in> set serpentine"
    unfolding serpentine_def by (rule in_concat_map)
  then show "isCellOccupied fullBoard c"
    by (simp add: isCellOccupied_iff fullBoard_fields)
qed

text \<open>
  C5 as stated fails: on the full grid the search does not return, and the respawn step
  that calls it does not return either.
\<close>

theorem search_never_returns_on_full_grid:
  "randomEmptyCellTotal fullBoard = None \<and> ensureApple fullBoard = None"
  using search_full_grid [OF fullBoard_rolls fullBoard_occupied]
  by (simp add: ensureApple_diverges fullBoard_fields)

lemma demo_candidate: "nthCandidate demoState 0 = (12, 12)"
  by (simp add: nthCandidate_def demo_fields gridWidth_eq gridHeight_eq)

theorem free_cell_search_returns_iff_witness:
  "\<not> isCellOccupied demoState (nthCandidate demoState 0)
   \<and> randomEmptyCellTotal demoState \<noteq> None
   \<and> randomEmptyCellTotal fullBoard = None
   \<and> apples fullBoard = [] \<and> ensureApple fullBoard = None"
proof -
  have free: "\<not> isCellOccupied demoState (nthCandidate demoState 0)"
    by (simp add: demo_candidate isCellOccupied_iff demo_fields)
  from free_cell_search_returns_iff [of demoState, THEN conjunct1] free
  have 1: "randomEmptyCellTotal demoState \<noteq> None"
    by blast
  from free_cell_search_returns_iff [of fullBoard, THEN conjunct2, THEN conjunct2]
    fullBoard_rolls fullBoard_occupied
  have 2: "randomEmptyCellTotal fullBoard = None \<and> (apples fullBoard = [] \<longrightarrow> ensureApple fullBoard = None)"
    by blast
  from free 1 2 show ?thesis
    by (simp add: fullBoard_fields)
qed

section \<open>Cells of an explosion\<close>

lemma pi_ge_3: "3 \<le> pi"
  using sin_x_le_x [of "pi / 6"] by (simp add: sin_30)

text \<open>For a small angle the cosine is at least 9/10 and the sine at most the angle.\<close>

lemma small_angle:
  fixes x :: real
  assumes "\<bar>x\<bar> \<le> 1 / 5"
  shows "9 / 10 \<le> cos x" and "\<bar>sin x\<bar> \<le> \<bar>x\<bar>"
proof -
  show s: "\<bar>sin x\<bar> \<le> \<bar>x\<bar>" by (rule abs_sin_x_le_abs_x)
  with assms have "\<bar>sin x\<bar> \<le> 1 / 5" by simp
  then have "(sin x)\<^sup>2 \<le> (1 / 5)\<^sup>2"
    by (metis abs_ge_zero power2_abs power_mono)
  moreover have "(cos x)\<^sup>2 = 1 - (sin x)\<^sup>2"
    by (rule cos_squared_eq)
  ultimately have c2: "(9 / 10)\<^sup>2 \<le> (cos x)\<^sup>2"
    by (simp add: power2_eq_square)
  have "- (pi / 2) \<le> x" "x \<le> pi / 2"
    using assms pi_ge_3 by (simp_all add: abs_le_iff)
  then have "0 \<le> cos x" by (rule cos_ge_zero)
  with c2 show "9 / 10 \<le> cos x"
    by (simp add: power2_le_iff_abs_le)
qed

lemma round_small_angle:
  fixes x :: real
  assumes "\<bar>x\<bar> \<le> 1 / 5"
  shows "round (cos x * 2) = 2" and "round (sin x * 2) = 0" and "round (- sin x * 2) = 0"
proof -
  from small_angle [OF assms] assms have c: "9 / 10 \<le> cos x" and s: "\<bar>sin x\<bar> \<le> 1 / 5"
    by simp_all
  have le1: "cos x \<le> 1" by simp
  show "round (cos x * 2) = 2"
    unfolding round_def
  proof (rule floor_unique)
    show "real_of_int 2 \<le> cos x * 2 + 1 / 2" using c by simp
    have "cos x * 2 + 1 / 2 < 3" using le1 by linarith
    then show "cos x * 2 + 1 / 2 < real_of_int 2 + 1" by simp
  qed
  from s show "round (sin x * 2) = 0"
    unfolding round_def by (intro floor_unique) (simp_all add: abs_le_iff)
  from s show "round (- sin x * 2) = 0"
    unfolding round_def by (intro floor_unique) (simp_all add: abs_le_iff)
qed


text \<open>The three cells of the explosions below whose value the statements need.\<close>

lemma dup_cell_0: "explosionCell ''solid'' (12, 12) 14 4 0 (1 / 4) 0 = (14, 12)"
  using round_small_angle [of "1 / 10 :: real"]
  by (simp add: explosionCell_def Let_def)

lemma dup_cell_13: "explosionCell ''solid'' (12, 12) 14 4 13 (15 / 16) 0 = (14, 12)"
proof -
  let ?x = "pi / 7 - 3 / 8"
  have x: "\<bar>?x\<bar> \<le> 1 / 5"
    using pi_ge_3 pi_less_4 by (simp add: abs_le_iff)
  have a: "real 13 / real 14 * pi * 2 + 15 / 16 * 0.4 = 2 * pi - ?x"
    by simp
  have "cos (2 * pi - ?x) = cos ?x" "sin (2 * pi - ?x) = - sin ?x"
    by (rule cos_2pi_minus, rule sin_2pi_minus)
  then show ?thesis
    using round_small_angle(1,3) [OF x]
    unfolding explosionCell_def Let_def a by simp
qed


section \<open>Apples of an explosion\<close>


lemma explosion_duplicate:
  assumes "i < j" and "j < count"
    and "c = explosionCell (walls s) origin count radius i
               (rnd s (rndPos s + 2 * i)) (rnd s (rndPos s + 2 * i + 1))"
    and "c = explosionCell (walls s) origin count radius j
               (rnd s (rndPos s + 2 * j)) (rnd s (rndPos s + 2 * j + 1))"
    and "\<not> outOfBounds c" and "\<not> isCellOccupied s c"
  shows "\<not> distinct (explosionCandidates s origin count radius)"
proof
  let ?f = "\<lambda>i. explosionCell (walls s) origin count radius i
               (rnd s (rndPos s + 2 * i)) (rnd s (rndPos s + 2 * i + 1))"
  let ?P = "\<lambda>c. \<not> outOfBounds c \<and> \<not> isCellOccupied s c"
  assume "distinct (explosionCandidates s origin count radius)"
  then have "distinct (map ?f (filter (?P \<circ> ?f) [0..<count]))"
    by (simp add: explosionCandidates_def filter_map)
  then have inj: "inj_on ?f (set (filter (?P \<circ> ?f) [0..<count]))"
    by (simp add: distinct_map)
  have mem: "i \<in> set (filter (?P \<circ> ?f) [0..<count])" "j \<in> set (filter (?P \<circ> ?f) [0..<count])"
    using assms by auto
  have eq: "?f i = ?f j" using assms(3,4) by simp
  from inj eq mem have "i = j" by (rule inj_onD)
  with assms(1) show False by simp
qed

lemma bomb_fields:
  "snake (bombState rolls) = [(11, 12), (10, 12), (9, 12)]"
  "pendingDirection (bombState rolls) = (1, 0)" "direction (bombState rolls) = (1, 0)"
  "apples (bombState rolls) = [(3, 3)]" "running (bombState rolls)"
  "\<not> paused (bombState rolls)" "lastTick (bombState rolls) = 1000"
  "speedMs (bombState rolls) = 210" "walls (bombState rolls) = ''solid''"
  "bomb (bombState rolls) = Some (12, 12)" "magnet (bombState rolls) = None"
  "rocket (bombState rolls) = None" "rocketActive (bombState rolls) = None"
  "\<not> magnetActive (bombState rolls)" "rnd (bombState rolls) = rolls"
  "rndPos (bombState rolls) = 0" "score (bombState rolls) = 0"
  by (simp_all add: bombState_def demo_fields)

lemma bomb_head: "newHeadOf (latch (bombState rolls) 1210) (11, 12) = (12, 12)"
  by (simp add: newHeadOf_solid latch_def bomb_fields)

lemma bomb_unshifted:
  "unshifted (bombState rolls) 1210 (11, 12) =
     (bombState rolls)\<lparr>snake := [(12, 12), (11, 12), (10, 12), (9, 12)], lastTick := 1210\<rparr>"
  by (simp add: unshifted_def bomb_head) (simp add: latch_def bombState_def demoState_def)

lemma bomb_effect:
  "magnetEffect (collectPickups (unshifted (bombState rolls) 1210 (11, 12)) (12, 12) 1210) 1210 =
     Inr ((bombState rolls)
            \<lparr>snake := [(12, 12), (11, 12), (10, 12), (9, 12)], lastTick := 1210, rndPos := 28,
             apples := (3, 3) # explosionCandidates
                    ((bombState rolls)\<lparr>snake := [(12, 12), (11, 12), (10, 12), (9, 12)],
                                        lastTick := 1210\<rparr>) (12, 12) 14 4,
             bomb := None\<rparr>, True)"
proof -
  let ?t = "(bombState rolls)\<lparr>snake := [(12, 12), (11, 12), (10, 12), (9, 12)], lastTick := 1210\<rparr>"
  have "collectPickups ?t (12, 12) 1210 =
     (?t\<lparr>rndPos := 28, apples := (3, 3) # explosionCandidates ?t (12, 12) 14 4, bomb := None\<rparr>,
      True)"
    by (simp add: collectPickups_def collectBombOrApple_bomb collectMagnet_miss
        collectRocket_miss bomb_fields)
  then show ?thesis
    unfolding bomb_unshifted by (simp add: magnetEffect_inactive bomb_fields)
qed

text \<open>The tick in which the bomb is taken, for rolls that let no ground item spawn after it.\<close>

lemma bomb_tick:
  assumes "\<not> rolls 28 < 0.02" and "\<not> rolls 29 < 0.015" and "\<not> rolls 30 < 0.012"
  shows "tick (bombState rolls) 1210 = Some (Inr (Completed (bombAfter rolls)))"
proof -
  let ?t = "(bombState rolls)\<lparr>snake := [(12, 12), (11, 12), (10, 12), (9, 12)], lastTick := 1210\<rparr>"
  let ?u = "?t\<lparr>rndPos := 28, apples := (3, 3) # explosionCandidates ?t (12, 12) 14 4,
              bomb := None\<rparr>"
  have due: "tick (bombState rolls) 1210
               = tickBody (unshifted (bombState rolls) 1210 (11, 12)) (12, 12) 1210"
    by (subst tick_due [where head = "(11, 12)" and rest = "[(10, 12), (9, 12)]"])
       (simp_all add: bomb_fields bomb_head outOfBounds_iff)
  have 2: "magnetEffect (collectPickups (unshifted (bombState rolls) 1210 (11, 12)) (12, 12) 1210)
             1210 = Inr (?u, True)"
    by (simp add: bomb_effect)
  have 3: "ensureApple (finalizeMovement (?u, True)) = Some (Inr ?u)"
    by (simp add: finalizeMovement_def ensureApple_keep)
  have 4: "maybeSpawnBomb ?u = Some (Inr (?u\<lparr>rndPos := 29\<rparr>))"
    using assms(1) by (simp add: maybeSpawnBomb_no_roll bomb_fields)
  have 5: "maybeSpawnMagnet (?u\<lparr>rndPos := 29\<rparr>) = Some (Inr (?u\<lparr>rndPos := 30\<rparr>))"
    using assms(2) by (simp add: maybeSpawnMagnet_no_roll bomb_fields)
  have 6: "maybeSpawnRocket (?u\<lparr>rndPos := 30\<rparr>) = Some (Inr (?u\<lparr>rndPos := 31\<rparr>))"
    using assms(3) by (simp add: maybeSpawnRocket_no_roll bomb_fields)
  show ?thesis
    unfolding due tickBody_eval [OF 2 3 4 5 6]
    by (simp add: updateRocket_idle bomb_fields bombAfter_def)
qed

lemma dup_candidates:
  "\<not> distinct (explosionCandidates
       ((bombState dupRolls)\<lparr>snake := [(12, 12), (11, 12), (10, 12), (9, 12)], lastTick := 1210\<rparr>)
       (12, 12) 14 4)"
  by (rule explosion_duplicate [where i = 0 and j = 13 and c = "(14, 12)"])
     (simp_all add: bomb_fields dupRolls_def dup_cell_0 dup_cell_13 outOfBounds_iff
        isCellOccupied_iff)

text \<open>
  C3 fails on the code. The head takes the bomb at (12, 12); iterations 0 and 13 of the
  explosion both compute the free cell (14, 12), both are pushed to \<^verbatim>\<open>candidates\<close> (the
  occupancy test does not see the candidates collected so far), and the apple list at the
  end of the tick holds (14, 12) twice.
\<close>

theorem explosion_adds_same_cell_twice:
  "tick (bombState dupRolls) 1210 = Some (Inr (Completed (bombAfter dupRolls)))
   \<and> distinct (apples (bombState dupRolls))
   \<and> \<not> distinct (apples (bombAfter dupRolls))"
proof -
  have "tick (bombState dupRolls) 1210 = Some (Inr (Completed (bombAfter dupRolls)))"
    by (rule bomb_tick) (simp_all add: dupRolls_def)
  moreover have "\<not> distinct (apples (bombAfter dupRolls))"
    using dup_candidates by (simp add: bombAfter_def)
  ultimately show ?thesis
    by (simp add: bomb_fields)
qed

theorem explosion_adds_same_cell_twice_witness:
  "\<not> distinct (apples (bombAfter dupRolls))"
  using explosion_adds_same_cell_twice by (rule conjunct2 [THEN conjunct2])





lemma far_rolls: "\<forall>n. 0 \<le> farRolls n \<and> farRolls n < 1"
  by (simp add: farRolls_def)





section \<open>Apples after a tick\<close>

lemma beforeRespawn_Inr:
  assumes "snake s = head # rest"
  shows "\<exists>sg. magnetEffect (collectPickups (unshifted s nowMs head)
             (newHeadOf (latch s nowMs) head) nowMs) nowMs = Inr sg
           \<and> beforeRespawn s nowMs head = Inr (finalizeMovement sg)
           \<and> rnd (finalizeMovement sg) = rnd s
           \<and> snake (finalizeMovement sg) \<noteq> []"
proof -
  define t where "t = unshifted s nowMs head"
  define h where "h = newHeadOf (latch s nowMs) head"
  obtain p g where pg: "collectPickups t h nowMs = (p, g)" by (cases "collectPickups t h nowMs")
  have "snake (fst (collectPickups t h nowMs)) = snake t"
    by (rule collectPickups_snake)
  then have "snake p = snake t"
    unfolding pg by simp
  moreover have "snake t = h # head # rest"
    by (simp add: t_def h_def unshifted_fields assms)
  ultimately have sp: "snake p = h # head # rest"
    by simp
  from collectPickups_frame [of t h nowMs] have rp: "rnd p = rnd t"
    by (auto simp: pg)
  have rt: "rnd t = rnd s" by (simp add: t_def unshifted_def latch_def)
  from magnetEffect_frame [OF sp, of g nowMs] obtain ys sc ma g' where
    me: "magnetEffect (p, g) nowMs = Inr (p\<lparr>apples := ys, score := sc, magnetActive := ma\<rparr>, g')"
    by blast
  let ?sg = "(p\<lparr>apples := ys, score := sc, magnetActive := ma\<rparr>, g')"
  have 1: "magnetEffect (collectPickups t h nowMs) nowMs = Inr ?sg"
    by (simp add: pg me)
  have 2: "beforeRespawn s nowMs head = Inr (finalizeMovement ?sg)"
    unfolding beforeRespawn_def 1 [unfolded t_def h_def] by simp
  have 3: "rnd (finalizeMovement ?sg) = rnd s"
    by (simp add: finalizeMovement_def rp rt)
  have 4: "snake (finalizeMovement ?sg) \<noteq> []"
    by (simp add: finalizeMovement_def sp)
  from 1 [unfolded t_def h_def] 2 3 4 show ?thesis by blast
qed

lemma tickBody_hang:
  "magnetEffect (collectPickups t h nowMs) nowMs = Inr sg \<Longrightarrow>
   ensureApple (finalizeMovement sg) = None \<Longrightarrow> tickBody t h nowMs = None"
  by (simp add: tickBody_def andThen_def)

lemma ensureApple_cases: "ensureApple a = None \<or> (\<exists>s1. ensureApple a = Some (Inr s1))"
  by (auto simp: ensureApple_def split: option.splits)

lemma spawn_search_returns:
  assumes "snake s1 \<noteq> []"
  shows "(case randomEmptyCellTotal s1 of
              None \<Rightarrow> None
            | Some (pos, s2) \<Rightarrow>
                (case snake s2 of
                   [] \<Rightarrow> Some (Inl TypeError)
                 | head # _ \<Rightarrow>
                     if hypot (real_of_int (fst pos - fst head)) (real_of_int (snd pos - snd head)) > 4
                     then Some (Inr (upd s2 pos))
                     else Some (Inr s2))) =
         (case randomEmptyCellTotal s1 of
              None \<Rightarrow> None
            | Some (pos, s2) \<Rightarrow>
                     if hypot (real_of_int (fst pos - fst (hd (snake s1))))
                          (real_of_int (snd pos - snd (hd (snake s1)))) > 4
                     then Some (Inr (upd s2 pos))
                     else Some (Inr s2))"
proof (cases "randomEmptyCellTotal s1")
  case None
  then show ?thesis by simp
next
  case (Some y)
  from search_Some_D [OF Some] obtain k where
    k: "snd y = s1\<lparr>rndPos := rndPos s1 + 2 * k + 2\<rparr>"
    by blast
  obtain pos s2 where y: "y = (pos, s2)" by (cases y)
  with k have s2: "snake s2 = snake s1" by simp
  from assms obtain h r where "snake s1 = h # r" by (cases "snake s1") auto
  with Some y s2 show ?thesis by simp
qed

lemma maybeSpawnBomb_cases:
  assumes "snake s \<noteq> []"
  shows "maybeSpawnBomb s = None \<or> (\<exists>s'. maybeSpawnBomb s = Some (Inr s'))"
  unfolding maybeSpawnBomb_def Let_def
  using spawn_search_returns [of "snd (random s)" "\<lambda>t pos. t\<lparr>bomb := Some pos\<rparr>"] assms
  by (auto simp: snd_random split: option.splits)

lemma maybeSpawnMagnet_cases:
  assumes "snake s \<noteq> []"
  shows "maybeSpawnMagnet s = None \<or> (\<exists>s'. maybeSpawnMagnet s = Some (Inr s'))"
  unfolding maybeSpawnMagnet_def Let_def
  using spawn_search_returns [of "snd (random s)" "\<lambda>t pos. t\<lparr>magnet := Some pos\<rparr>"] assms
  by (auto simp: snd_random split: option.splits)

lemma maybeSpawnRocket_cases:
  assumes "snake s \<noteq> []"
  shows "maybeSpawnRocket s = None \<or> (\<exists>s'. maybeSpawnRocket s = Some (Inr s'))"
  unfolding maybeSpawnRocket_def Let_def
  using spawn_search_returns [of "snd (random s)" "\<lambda>t pos. t\<lparr>rocket := Some pos\<rparr>"] assms
  by (auto simp: snd_random split: option.splits)

lemma tickBody_cases:
  assumes me: "magnetEffect (collectPickups t h nowMs) nowMs = Inr sg"
    and sn: "snake (finalizeMovement sg) \<noteq> []"
  shows "tickBody t h nowMs = None
       \<or> (\<exists>s1 s2 s3 s4. ensureApple (finalizeMovement sg) = Some (Inr s1)
             \<and> maybeSpawnBomb s1 = Some (Inr s2)
             \<and> maybeSpawnMagnet s2 = Some (Inr s3)
             \<and> maybeSpawnRocket s3 = Some (Inr s4)
             \<and> tickBody t h nowMs = Some (Inr (Completed (updateRocket s4 nowMs))))"
proof -
  let ?a = "finalizeMovement sg"
  from ensureApple_cases [of ?a] show ?thesis
  proof (elim disjE exE)
    assume "ensureApple ?a = None"
    with me show ?thesis by (simp add: tickBody_def andThen_def)
  next
    fix s1 assume e1: "ensureApple ?a = Some (Inr s1)"
    from ensureApple_D [OF e1] sn have sn1: "snake s1 \<noteq> []" by auto
    from maybeSpawnBomb_cases [OF sn1] show ?thesis
    proof (elim disjE exE)
      assume "maybeSpawnBomb s1 = None"
      with me e1 show ?thesis by (simp add: tickBody_def andThen_def)
    next
      fix s2 assume e2: "maybeSpawnBomb s1 = Some (Inr s2)"
      from maybeSpawnBomb_D [OF e2] sn1 have sn2: "snake s2 \<noteq> []" by auto
      from maybeSpawnMagnet_cases [OF sn2] show ?thesis
      proof (elim disjE exE)
        assume "maybeSpawnMagnet s2 = None"
        with me e1 e2 show ?thesis by (simp add: tickBody_def andThen_def)
      next
        fix s3 assume e3: "maybeSpawnMagnet s2 = Some (Inr s3)"
        from maybeSpawnMagnet_D [OF e3] sn2 have sn3: "snake s3 \<noteq> []" by auto
        from maybeSpawnRocket_cases [OF sn3] show ?thesis
        proof (elim disjE exE)
          assume "maybeSpawnRocket s3 = None"
          with me e1 e2 e3 show ?thesis by (simp add: tickBody_def andThen_def)
        next
          fix s4 assume e4: "maybeSpawnRocket s3 = Some (Inr s4)"
          from tickBody_eval [OF me e1 e2 e3 e4] e1 e2 e3 e4 show ?thesis by blast
        qed
      qed
    qed
  qed
qed

lemma spawns_keep_apples:
  assumes b: "maybeSpawnBomb s1 = Some (Inr s2)"
    and m: "maybeSpawnMagnet s2 = Some (Inr s3)"
    and r: "maybeSpawnRocket s3 = Some (Inr s4)"
  shows "\<exists>ys. apples (updateRocket s4 nowMs) = apples s1 @ ys
              \<and> (rocketActive s1 = None \<longrightarrow> ys = [])"
proof -
  from maybeSpawnBomb_D [OF b] obtain n2 bo where
    2: "s2 = s1\<lparr>rndPos := n2, bomb := bo\<rparr>"
    by blast
  from maybeSpawnMagnet_D [OF m] obtain n3 ma where
    3: "s3 = s2\<lparr>rndPos := n3, magnet := ma\<rparr>"
    by blast
  from maybeSpawnRocket_D [OF r] obtain n4 ro where
    4: "s4 = s3\<lparr>rndPos := n4, rocket := ro\<rparr>"
    by blast
  from updateRocket_frame [of s4 nowMs] obtain n5 xs5 ra where
    5: "updateRocket s4 nowMs = s4\<lparr>rndPos := n5, apples := apples s4 @ xs5, rocketActive := ra\<rparr>"
       "rocketActive s4 = None \<longrightarrow> xs5 = []"
    by auto
  have ap: "apples (updateRocket s4 nowMs) = apples s1 @ xs5"
    unfolding 5(1) by (simp add: 4 3 2)
  have ra: "rocketActive s4 = rocketActive s1"
    by (simp add: 4 3 2)
  from ap 5(2) ra show ?thesis by auto
qed

lemma search_total:
  assumes "everyCellRolled (rnd t)" and "c \<in> freeCells t"
  shows "randomEmptyCellTotal t \<noteq> None"
proof -
  from assms(2) have c: "\<not> outOfBounds c" "\<not> isCellOccupied t c"
    by (simp_all add: freeCells_def)
  from assms(1) c(1) obtain k where "nthCandidate t k = c"
    unfolding everyCellRolled_def nthCandidate_def by blast
  with c(2) have "\<not> isCellOccupied t (nthCandidate t k)" by simp
  then show ?thesis
    unfolding search_None_iff by blast
qed

lemma freeCells_finite: "finite (freeCells t)"
proof -
  have "freeCells t \<subseteq> {0..24} \<times> {0..24}"
    by (auto simp: freeCells_def outOfBounds_iff)
  then show ?thesis
    by (rule finite_subset) simp
qed

lemma freeCells_rndPos: "freeCells (t\<lparr>rndPos := n\<rparr>) = freeCells t"
  by (simp add: freeCells_def isCellOccupied_rndPos)

lemma freeCells_shrink:
  assumes "\<forall>c. isCellOccupied t' c \<longrightarrow> isCellOccupied t c \<or> b = Some c"
  shows "card (freeCells t) \<le> Suc (card (freeCells t'))"
proof (cases b)
  case None
  with assms have "freeCells t \<subseteq> freeCells t'"
    by (auto simp: freeCells_def)
  then have "card (freeCells t) \<le> card (freeCells t')"
    by (rule card_mono [OF freeCells_finite])
  then show ?thesis by simp
next
  case (Some p)
  with assms have sub: "freeCells t - {p} \<subseteq> freeCells t'"
    by (auto simp: freeCells_def)
  have "card (freeCells t - {p}) \<le> card (freeCells t')"
    using sub by (rule card_mono [OF freeCells_finite])
  moreover have "card (freeCells t) \<le> Suc (card (freeCells t - {p}))"
    by (cases "p \<in> freeCells t") (simp_all add: card_Suc_Diff1 freeCells_finite)
  ultimately show ?thesis by simp
qed

lemma freeCells_nonempty: "0 < card (freeCells t) \<Longrightarrow> \<exists>c. c \<in> freeCells t"
  by (cases "freeCells t = {}") auto

lemma ensureApple_progress:
  assumes "everyCellRolled (rnd a)" and "0 < card (freeCells a)"
  shows "\<exists>s1. ensureApple a = Some (Inr s1) \<and> rnd s1 = rnd a \<and> snake s1 = snake a
            \<and> card (freeCells a) \<le> Suc (card (freeCells s1))"
proof -
  from freeCells_nonempty [OF assms(2)] obtain c where c: "c \<in> freeCells a" ..
  from search_total [OF assms(1) c] have "ensureApple a \<noteq> None"
    by (auto simp: ensureApple_def split: option.splits)
  with ensureApple_cases [of a] obtain s1 where e: "ensureApple a = Some (Inr s1)"
    by blast
  from ensureApple_D [OF e] obtain n xs where
    1: "s1 = a\<lparr>rndPos := n, apples := xs\<rparr>" "apples a \<noteq> [] \<longrightarrow> s1 = a"
       "apples a = [] \<longrightarrow> (\<exists>c. xs = [c])"
    by blast
  have "\<exists>b. \<forall>c. isCellOccupied s1 c \<longrightarrow> isCellOccupied a c \<or> b = Some c"
  proof (cases "apples a = []")
    case True
    with 1(3) obtain p where "xs = [p]" by blast
    then show ?thesis
      unfolding 1(1) by (intro exI [of _ "Some p"]) (auto simp: isCellOccupied_iff)
  next
    case False
    with 1(2) show ?thesis by auto
  qed
  then obtain b where "\<forall>c. isCellOccupied s1 c \<longrightarrow> isCellOccupied a c \<or> b = Some c" ..
  from freeCells_shrink [OF this] e show ?thesis
    by (simp add: 1(1))
qed

lemma maybeSpawnBomb_progress:
  assumes "everyCellRolled (rnd s)" and "0 < card (freeCells s)" and sn: "snake s \<noteq> []"
  shows "\<exists>s'. maybeSpawnBomb s = Some (Inr s') \<and> rnd s' = rnd s \<and> snake s' = snake s
            \<and> card (freeCells s) \<le> Suc (card (freeCells s'))"
proof -
  from freeCells_nonempty [OF assms(2)] obtain c where "c \<in> freeCells s" ..
  then have c: "c \<in> freeCells (s\<lparr>rndPos := Suc (rndPos s)\<rparr>)"
    by (simp add: freeCells_rndPos)
  from search_total [OF _ c] assms(1) have "randomEmptyCellTotal (s\<lparr>rndPos := Suc (rndPos s)\<rparr>) \<noteq> None"
    by simp
  with sn have "maybeSpawnBomb s \<noteq> None"
    by (auto simp: maybeSpawnBomb_def Let_def snd_random split: option.splits list.splits if_splits)
  with maybeSpawnBomb_cases [OF sn] obtain s' where e: "maybeSpawnBomb s = Some (Inr s')"
    by blast
  from maybeSpawnBomb_D [OF e] obtain n b where 1: "s' = s\<lparr>rndPos := n, bomb := b\<rparr>"
    by blast
  have "\<forall>c. isCellOccupied s' c \<longrightarrow> isCellOccupied s c \<or> b = Some c"
    unfolding 1 by (auto simp: isCellOccupied_iff)
  from freeCells_shrink [OF this] e show ?thesis
    by (simp add: 1)
qed

lemma maybeSpawnMagnet_progress:
  assumes "everyCellRolled (rnd s)" and "0 < card (freeCells s)" and sn: "snake s \<noteq> []"
  shows "\<exists>s'. maybeSpawnMagnet s = Some (Inr s') \<and> rnd s' = rnd s \<and> snake s' = snake s
            \<and> card (freeCells s) \<le> Suc (card (freeCells s'))"
proof -
  from freeCells_nonempty [OF assms(2)] obtain c where "c \<in> freeCells s" ..
  then have c: "c \<in> freeCells (s\<lparr>rndPos := Suc (rndPos s)\<rparr>)"
    by (simp add: freeCells_rndPos)
  from search_total [OF _ c] assms(1) have "randomEmptyCellTotal (s\<lparr>rndPos := Suc (rndPos s)\<rparr>) \<noteq> None"
    by simp
  with sn have "maybeSpawnMagnet s \<noteq> None"
    by (auto simp: maybeSpawnMagnet_def Let_def snd_random split: option.splits list.splits if_splits)
  with maybeSpawnMagnet_cases [OF sn] obtain s' where e: "maybeSpawnMagnet s = Some (Inr s')"
    by blast
  from maybeSpawnMagnet_D [OF e] obtain n b where 1: "s' = s\<lparr>rndPos := n, magnet := b\<rparr>"
    by blast
  have "\<forall>c. isCellOccupied s' c \<longrightarrow> isCellOccupied s c \<or> b = Some c"
    unfolding 1 by (auto simp: isCellOccupied_iff)
  from freeCells_shrink [OF this] e show ?thesis
    by (simp add: 1)
qed

lemma maybeSpawnRocket_progress:
  assumes "everyCellRolled (rnd s)" and "0 < card (freeCells s)" and sn: "snake s \<noteq> []"
  shows "\<exists>s'. maybeSpawnRocket s = Some (Inr s') \<and> rnd s' = rnd s \<and> snake s' = snake s
            \<and> card (freeCells s) \<le> Suc (card (freeCells s'))"
proof -
  from freeCells_nonempty [OF assms(2)] obtain c where "c \<in> freeCells s" ..
  then have c: "c \<in> freeCells (s\<lparr>rndPos := Suc (rndPos s)\<rparr>)"
    by (simp add: freeCells_rndPos)
  from search_total [OF _ c] assms(1) have "randomEmptyCellTotal (s\<lparr>rndPos := Suc (rndPos s)\<rparr>) \<noteq> None"
    by simp
  with sn have "maybeSpawnRocket s \<noteq> None"
    by (auto simp: maybeSpawnRocket_def Let_def snd_random split: option.splits list.splits if_splits)
  with maybeSpawnRocket_cases [OF sn] obtain s' where e: "maybeSpawnRocket s = Some (Inr s')"
    by blast
  from maybeSpawnRocket_D [OF e] obtain n b where 1: "s' = s\<lparr>rndPos := n, rocket := b\<rparr>"
    by blast
  have "\<forall>c. isCellOccupied s' c \<longrightarrow> isCellOccupied s c \<or> b = Some c"
    unfolding 1 by (auto simp: isCellOccupied_iff)
  from freeCells_shrink [OF this] e show ?thesis
    by (simp add: 1)
qed

lemma tickBody_total:
  assumes me: "magnetEffect (collectPickups t h nowMs) nowMs = Inr sg"
    and sn: "snake (finalizeMovement sg) \<noteq> []"
    and r: "everyCellRolled (rnd (finalizeMovement sg))"
    and f: "4 \<le> card (freeCells (finalizeMovement sg))"
  shows "\<exists>s'. tickBody t h nowMs = Some (Inr (Completed s'))"
proof -
  let ?a = "finalizeMovement sg"
  from f have f0: "0 < card (freeCells ?a)" by simp
  from ensureApple_progress [OF r f0] obtain s1 where
    1: "ensureApple ?a = Some (Inr s1)" "rnd s1 = rnd ?a" "snake s1 = snake ?a"
       "card (freeCells ?a) \<le> Suc (card (freeCells s1))"
    by blast
  from 1 r sn f have h1: "everyCellRolled (rnd s1)" "0 < card (freeCells s1)" "snake s1 \<noteq> []"
    by simp_all
  from maybeSpawnBomb_progress [OF h1] obtain s2 where
    2: "maybeSpawnBomb s1 = Some (Inr s2)" "rnd s2 = rnd s1" "snake s2 = snake s1"
       "card (freeCells s1) \<le> Suc (card (freeCells s2))"
    by blast
  from 2 1(4) h1 f have h2: "everyCellRolled (rnd s2)" "0 < card (freeCells s2)" "snake s2 \<noteq> []"
    by simp_all
  from maybeSpawnMagnet_progress [OF h2] obtain s3 where
    3: "maybeSpawnMagnet s2 = Some (Inr s3)" "rnd s3 = rnd s2" "snake s3 = snake s2"
       "card (freeCells s2) \<le> Suc (card (freeCells s3))"
    by blast
  from 3 2(4) 1(4) h2 f have h3: "everyCellRolled (rnd s3)" "0 < card (freeCells s3)" "snake s3 \<noteq> []"
    by simp_all
  from maybeSpawnRocket_progress [OF h3] obtain s4 where
    4: "maybeSpawnRocket s3 = Some (Inr s4)"
    by blast
  from tickBody_eval [OF me 1(1) 2(1) 3(1) 4] show ?thesis by blast
qed

text \<open>
  C7, as amended. Take a tick that is due and whose move hits neither a solid wall nor the
  snake, and let \<open>u\<close> be the state in which it reaches the respawn test. Such a tick
  either never returns or completes with at least one apple; it never throws and never
  ends the game. When \<open>u\<close> has no apple, the respawn calls the unbounded free-cell search:
  if every cell the rolls name is occupied, as on a full grid with rolls in [0, 1), the
  tick never returns and no apple is spawned; if the \<open>k\<close>-th candidate is the first free
  one, exactly one apple is spawned, on that cell, which lies on the grid when the rolls
  are in [0, 1), and it heads the apple list of a tick that completes, alone unless a flying
  rocket drops more. The tick does complete when the rolls name every grid cell from every
  position and \<open>u\<close> has at least four free grid cells, one for the respawn and one for
  each spawn routine.
\<close>

theorem tick_respawn_needs_free_cell:
  assumes run: "running s" "\<not> paused s"
    and due: "\<not> nowMs - (if lastTick s = 0 then nowMs else lastTick s) < speedMs s"
    and sn: "snake s = head # rest"
    and wall: "\<not> (walls s = ''solid'' \<and> outOfBounds (newHeadOf (latch s nowMs) head))"
    and self: "newHeadOf (latch s nowMs) head \<notin> set (snake s)"
  shows "\<exists>u. beforeRespawn s nowMs head = Inr u
     \<and> (tick s nowMs = None
          \<or> (\<exists>s'. tick s nowMs = Some (Inr (Completed s')) \<and> apples s' \<noteq> []))
     \<and> (apples u = [] \<and> (\<forall>k. isCellOccupied u (nthCandidate u k)) \<longrightarrow> tick s nowMs = None)
     \<and> (apples u = [] \<and> (\<forall>n. 0 \<le> rnd s n \<and> rnd s n < 1) \<and> freeCells u = {}
          \<longrightarrow> tick s nowMs = None)
     \<and> (\<forall>k. apples u = [] \<and> \<not> isCellOccupied u (nthCandidate u k)
              \<and> (\<forall>j<k. isCellOccupied u (nthCandidate u j)) \<longrightarrow>
            ensureApple u =
              Some (Inr (u\<lparr>rndPos := rndPos u + 2 * k + 2, apples := [nthCandidate u k]\<rparr>))
          \<and> ((\<forall>n. 0 \<le> rnd s n \<and> rnd s n < 1) \<longrightarrow> \<not> outOfBounds (nthCandidate u k))
          \<and> (\<forall>s'. tick s nowMs = Some (Inr (Completed s')) \<longrightarrow>
                (\<exists>ys. apples s' = nthCandidate u k # ys
                      \<and> (rocketActive u = None \<longrightarrow> ys = []))))
     \<and> (everyCellRolled (rnd s) \<and> 4 \<le> card (freeCells u) \<longrightarrow>
          (\<exists>s'. tick s nowMs = Some (Inr (Completed s')) \<and> apples s' \<noteq> []))"
proof -
  define t where "t = unshifted s nowMs head"
  define h where "h = newHeadOf (latch s nowMs) head"
  from beforeRespawn_Inr [OF sn, of nowMs, folded t_def h_def] obtain sg where
    me: "magnetEffect (collectPickups t h nowMs) nowMs = Inr sg"
    and br: "beforeRespawn s nowMs head = Inr (finalizeMovement sg)"
    and rn: "rnd (finalizeMovement sg) = rnd s"
    and ne: "snake (finalizeMovement sg) \<noteq> []"
    by blast
  define u where "u = finalizeMovement sg"
  note me' = me and br' = br [folded u_def] and rn' = rn [folded u_def] and ne' = ne [folded u_def]
  have tk: "tick s nowMs = tickBody t h nowMs"
    unfolding tick_due [OF run due sn] t_def h_def using wall self by auto
  have cases: "tick s nowMs = None
          \<or> (\<exists>s'. tick s nowMs = Some (Inr (Completed s')) \<and> apples s' \<noteq> [])"
  proof -
    from tickBody_cases [OF me ne] show ?thesis
    proof (elim disjE exE conjE)
      assume "tickBody t h nowMs = None"
      then show ?thesis by (simp add: tk)
    next
      fix s1 s2 s3 s4
      assume e: "ensureApple (finalizeMovement sg) = Some (Inr s1)"
        "maybeSpawnBomb s1 = Some (Inr s2)" "maybeSpawnMagnet s2 = Some (Inr s3)"
        "maybeSpawnRocket s3 = Some (Inr s4)"
        and c: "tickBody t h nowMs = Some (Inr (Completed (updateRocket s4 nowMs)))"
      from ensureApple_D [OF e(1)] obtain n xs where
        "s1 = (finalizeMovement sg)\<lparr>rndPos := n, apples := xs\<rparr>" "xs \<noteq> []"
        by blast
      then have "apples s1 \<noteq> []" by simp
      with spawns_keep_apples [OF e(2-4), of nowMs] have "apples (updateRocket s4 nowMs) \<noteq> []"
        by auto
      with c show ?thesis by (simp add: tk)
    qed
  qed
  have hang: "tick s nowMs = None" if "apples u = []" "\<forall>k. isCellOccupied u (nthCandidate u k)"
  proof -
    from that(2) have "randomEmptyCellTotal u = None"
      by (simp add: search_None_iff)
    with that(1) have "ensureApple u = None"
      by (simp add: ensureApple_def)
    with me show ?thesis
      unfolding tk u_def by (rule tickBody_hang)
  qed
  have inb: "\<not> outOfBounds (nthCandidate u k)" if "\<forall>n. 0 \<le> rnd s n \<and> rnd s n < 1" for k
    using that nthCandidate_in_bounds [of u k] by (simp add: rn')
  have full: "tick s nowMs = None"
    if "apples u = []" "\<forall>n. 0 \<le> rnd s n \<and> rnd s n < 1" "freeCells u = {}"
  proof -
    have "isCellOccupied u (nthCandidate u k)" for k
    proof (rule ccontr)
      assume "\<not> isCellOccupied u (nthCandidate u k)"
      with inb [OF that(2), of k] have "nthCandidate u k \<in> freeCells u"
        by (simp add: freeCells_def)
      with that(3) show False by simp
    qed
    with that(1) show ?thesis by (intro hang) simp_all
  qed
  have spawn: "ensureApple u =
              Some (Inr (u\<lparr>rndPos := rndPos u + 2 * k + 2, apples := [nthCandidate u k]\<rparr>))"
    if "apples u = []" "\<not> isCellOccupied u (nthCandidate u k)"
      "\<forall>j<k. isCellOccupied u (nthCandidate u j)" for k
    using search_returns [OF that(3) that(2)] that(1) by (simp add: ensureApple_def)
  have final: "\<exists>ys. apples s' = nthCandidate u k # ys \<and> (rocketActive u = None \<longrightarrow> ys = [])"
    if "apples u = []" "\<not> isCellOccupied u (nthCandidate u k)"
      "\<forall>j<k. isCellOccupied u (nthCandidate u j)"
      and c: "tick s nowMs = Some (Inr (Completed s'))" for k s'
  proof -
    from c have "tickBody t h nowMs = Some (Inr (Completed s'))" by (simp add: tk)
    from tickBody_Completed_D [OF this] me obtain s1 s2 s3 s4 where
      e: "ensureApple u = Some (Inr s1)"
        "maybeSpawnBomb s1 = Some (Inr s2)" "maybeSpawnMagnet s2 = Some (Inr s3)"
        "maybeSpawnRocket s3 = Some (Inr s4)" "s' = updateRocket s4 nowMs"
      unfolding u_def by auto
    from e(1) spawn [OF that(1-3)] have
      s1: "s1 = u\<lparr>rndPos := rndPos u + 2 * k + 2, apples := [nthCandidate u k]\<rparr>"
      by simp
    from spawns_keep_apples [OF e(2-4), of nowMs] show ?thesis
      unfolding e(5) by (simp add: s1)
  qed
  have total: "\<exists>s'. tick s nowMs = Some (Inr (Completed s')) \<and> apples s' \<noteq> []"
    if "everyCellRolled (rnd s)" "4 \<le> card (freeCells u)"
  proof -
    from that have "everyCellRolled (rnd (finalizeMovement sg))"
      "4 \<le> card (freeCells (finalizeMovement sg))"
      by (simp_all add: rn u_def)
    from tickBody_total [OF me ne this] obtain s' where
      "tick s nowMs = Some (Inr (Completed s'))"
      unfolding tk by blast
    with cases show ?thesis by auto
  qed
  show ?thesis
  proof (rule exI [of _ u], intro conjI allI impI)
    show "beforeRespawn s nowMs head = Inr u" by (rule br')
    show "tick s nowMs = None
          \<or> (\<exists>s'. tick s nowMs = Some (Inr (Completed s')) \<and> apples s' \<noteq> [])"
      by (rule cases)
    show "tick s nowMs = None" if "apples u = [] \<and> (\<forall>k. isCellOccupied u (nthCandidate u k))"
      using that by (intro hang) simp_all
    show "tick s nowMs = None"
      if "apples u = [] \<and> (\<forall>n. 0 \<le> rnd s n \<and> rnd s n < 1) \<and> freeCells u = {}"
      using that by (intro full) simp_all
    show "ensureApple u =
              Some (Inr (u\<lparr>rndPos := rndPos u + 2 * k + 2, apples := [nthCandidate u k]\<rparr>))"
      if "apples u = [] \<and> \<not> isCellOccupied u (nthCandidate u k)
              \<and> (\<forall>j<k. isCellOccupied u (nthCandidate u j))" for k
      using that by (intro spawn) simp_all
    show "\<not> outOfBounds (nthCandidate u k)" if "\<forall>n. 0 \<le> rnd s n \<and> rnd s n < 1" for k
      using that by (rule inb)
    show "\<exists>ys. apples s' = nthCandidate u k # ys \<and> (rocketActive u = None \<longrightarrow> ys = [])"
      if "apples u = [] \<and> \<not> isCellOccupied u (nthCandidate u k)
              \<and> (\<forall>j<k. isCellOccupied u (nthCandidate u j))"
        and "tick s nowMs = Some (Inr (Completed s'))" for k s'
      using that by (intro final) simp_all
    show "\<exists>s'. tick s nowMs = Some (Inr (Completed s')) \<and> apples s' \<noteq> []"
      if "everyCellRolled (rnd s) \<and> 4 \<le> card (freeCells u)"
      using that by (intro total) simp_all
  qed
qed

lemma eaten_head: "newHeadOf (latch (demoState\<lparr>rnd := r\<rparr>) 1210) (5, 5) = (6, 5)"
  by (simp add: newHeadOf_solid latch_def demo_fields)

lemma eaten_unshifted:
  "unshifted (demoState\<lparr>rnd := r\<rparr>) 1210 (5, 5) =
     demoState\<lparr>rnd := r, snake := [(6, 5), (5, 5), (4, 5), (3, 5)], lastTick := 1210\<rparr>"
  by (simp add: unshifted_def eaten_head) (simp add: latch_def demoState_def)

lemma eaten_effect:
  "magnetEffect (collectPickups (unshifted (demoState\<lparr>rnd := r\<rparr>) 1210 (5, 5)) (6, 5) 1210) 1210 =
     Inr (demoState\<lparr>rnd := r, snake := [(6, 5), (5, 5), (4, 5), (3, 5)], lastTick := 1210,
              apples := [], score := 10\<rparr>, True)"
proof -
  have "collectPickups (unshifted (demoState\<lparr>rnd := r\<rparr>) 1210 (5, 5)) (6, 5) 1210 =
     (demoState\<lparr>rnd := r, snake := [(6, 5), (5, 5), (4, 5), (3, 5)], lastTick := 1210,
              apples := [], score := 10\<rparr>, True)"
    unfolding eaten_unshifted
    by (simp add: collectPickups_def collectBombOrApple_apple collectMagnet_miss
        collectRocket_miss demo_fields)
  then show ?thesis
    by (simp add: magnetEffect_inactive demo_fields)
qed

lemma eaten_before:
  "beforeRespawn (demoState\<lparr>rnd := r\<rparr>) 1210 (5, 5) =
     Inr (demoState\<lparr>rnd := r, snake := [(6, 5), (5, 5), (4, 5), (3, 5)], lastTick := 1210,
              apples := [], score := 10\<rparr>)"
  unfolding beforeRespawn_def eaten_head eaten_effect by (simp add: finalizeMovement_def)

lemma eaten_free:
  "4 \<le> card (freeCells (demoState\<lparr>rnd := r, snake := [(6, 5), (5, 5), (4, 5), (3, 5)],
              lastTick := 1210, apples := [], score := 10\<rparr>))"
proof -
  let ?u = "demoState\<lparr>rnd := r, snake := [(6, 5), (5, 5), (4, 5), (3, 5)],
              lastTick := 1210, apples := [], score := 10\<rparr>"
  have "{(0, 0), (1, 0), (2, 0), (3, 0)} \<subseteq> freeCells ?u"
    by (simp add: freeCells_def outOfBounds_iff isCellOccupied_iff demo_fields)
  then have "card {(0, 0) :: cell, (1, 0), (2, 0), (3, 0)} \<le> card (freeCells ?u)"
    by (rule card_mono [OF freeCells_finite])
  then show ?thesis by simp
qed

lemma coveringRolls_floor:
  "\<lfloor>coveringRolls n * 25\<rfloor> =
     (if even n then int ((n div 2) mod 25) else int ((n div 2) div 25 mod 25))"
  by (simp add: coveringRolls_def)

lemma div_mod_25:
  fixes q r :: nat
  assumes "r < 25"
  shows "(25 * q + r) mod 25 = r" and "(25 * q + r) div 25 = q"
  using assms by simp_all

lemma coveringRolls_cover: "everyCellRolled coveringRolls"
  unfolding everyCellRolled_def
proof (intro allI impI)
  fix n :: nat and c :: cell
  assume "\<not> outOfBounds c"
  then have b: "0 \<le> fst c" "fst c < 25" "0 \<le> snd c" "snd c < 25"
    by (simp_all add: outOfBounds_iff not_le)
  define X where "X = nat (fst c)"
  define Y where "Y = nat (snd c)"
  from b have c: "c = (int X, int Y)" and X: "X < 25" and Y: "Y < 25"
    by (simp_all add: X_def Y_def prod_eq_iff)
  show "\<exists>k. (\<lfloor>coveringRolls (n + 2 * k) * real_of_int gridWidth\<rfloor>,
              \<lfloor>coveringRolls (n + 2 * k + 1) * real_of_int gridHeight\<rfloor>) = c"
  proof (cases "even n")
    case True
    then obtain m where n: "n = 2 * m" by (elim evenE)
    define j where "j = 25 * (25 * (m + 1) + Y) + X"
    have mj: "m \<le> j" by (simp add: j_def)
    have 1: "j mod 25 = X" unfolding j_def using X by (rule div_mod_25(1))
    have "j div 25 = 25 * (m + 1) + Y" unfolding j_def using X by (rule div_mod_25(2))
    then have 2: "j div 25 mod 25 = Y" using Y by (simp only: div_mod_25(1))
    have p: "n + 2 * (j - m) = 2 * j" using mj by (simp add: n)
    have "\<lfloor>coveringRolls (2 * j) * 25\<rfloor> = int X"
      unfolding coveringRolls_floor by (simp add: 1)
    moreover have "\<lfloor>coveringRolls (2 * j + 1) * 25\<rfloor> = int Y"
      unfolding coveringRolls_floor by (simp add: 2)
    ultimately show ?thesis
      by (intro exI [of _ "j - m"]) (simp only: p c gridWidth_eq gridHeight_eq, simp)
  next
    case False
    then obtain m where n: "n = 2 * m + 1" by (elim oddE)
    define z where "z = (Y + 24) mod 25"
    have z1: "z < 25" by (simp add: z_def)
    have z2: "(z + 1) mod 25 = Y"
    proof (cases "Y = 0")
      case True
      then show ?thesis by (simp add: z_def)
    next
      case False
      then have "Y + 24 = 25 * 1 + (Y - 1)" by simp
      moreover from Y have "Y - 1 < 25" by simp
      ultimately have "z = Y - 1"
        unfolding z_def by (simp only: div_mod_25(1))
      with False Y show ?thesis by simp
    qed
    note z = z1 z2
    define j where "j = 25 * (25 * (m + 1) + X) + z"
    have mj: "m \<le> j" by (simp add: j_def)
    have "j div 25 = 25 * (m + 1) + X" unfolding j_def using z(1) by (rule div_mod_25(2))
    then have 1: "j div 25 mod 25 = X" using X by (simp only: div_mod_25(1))
    have "j + 1 = 25 * (25 * (m + 1) + X) + (z + 1)" by (simp add: j_def)
    then have "(j + 1) mod 25 = (z + 1) mod 25" by (simp only: mod_mult_self4)
    with z(2) have 2: "(j + 1) mod 25 = Y" by simp
    have p: "n + 2 * (j - m) = 2 * j + 1" using mj by (simp add: n)
    have q: "2 * j + 1 + 1 = 2 * (j + 1)" by simp
    have "\<lfloor>coveringRolls (2 * j + 1) * 25\<rfloor> = int X"
      unfolding coveringRolls_floor by (simp add: 1)
    moreover have "\<lfloor>coveringRolls (2 * (j + 1)) * 25\<rfloor> = int Y"
      unfolding coveringRolls_floor using 2 by simp
    ultimately show ?thesis
      by (intro exI [of _ "j - m"]) (simp only: p q c gridWidth_eq gridHeight_eq, simp)
  qed
qed

lemma lastApple_fields:
  "snake lastAppleState = (1, 0) # lastAppleTail" "pendingDirection lastAppleState = (- 1, 0)"
  "apples lastAppleState = [(0, 0)]" "bomb lastAppleState = None"
  "magnet lastAppleState = None" "magnetActive lastAppleState = False"
  "rocket lastAppleState = None" "rocketActive lastAppleState = None"
  "score lastAppleState = 0" "running lastAppleState = True" "paused lastAppleState = False"
  "walls lastAppleState = ''solid''" "speedMs lastAppleState = 210"
  "lastTick lastAppleState = 1000" "rnd lastAppleState = cyclicRolls"
  "rndPos lastAppleState = 0"
  by (simp_all add: lastAppleState_def demo_fields)

lemma lastApple_head: "newHeadOf (latch lastAppleState 1210) (1, 0) = (0, 0)"
  by (simp add: newHeadOf_solid latch_def lastApple_fields)

lemma origin_fresh: "(0, 0) \<notin> set lastAppleTail"
  unfolding lastAppleTail_def set_append set_map set_concat set_upto by auto

lemma lastApple_full:
  assumes "\<not> outOfBounds c"
  shows "c \<in> set ((0, 0) # (1, 0) # lastAppleTail)"
proof -
  from assms have b: "0 \<le> fst c" "fst c \<le> 24" "0 \<le> snd c" "snd c \<le> 24"
    by (simp_all add: outOfBounds_iff)
  show ?thesis
  proof (cases "snd c = 0")
    case True
    show ?thesis
    proof (cases "fst c < 2")
      case True
      with b \<open>snd c = 0\<close> have "c = (0, 0) \<or> c = (1, 0)"
        by (auto simp: prod_eq_iff)
      then show ?thesis by auto
    next
      case False
      with b have "fst c \<in> {2..24}" by simp
      moreover from \<open>snd c = 0\<close> have "c = (fst c, 0)" by (simp add: prod_eq_iff)
      ultimately have "c \<in> (\<lambda>i. (i, 0)) ` {2..24}" by (rule image_eqI [rotated])
      then have "c \<in> set lastAppleTail"
        unfolding lastAppleTail_def set_append set_map set_upto by (rule UnI1)
      then show ?thesis by simp
    qed
  next
    case False
    define i where "i = (if even (snd c) then fst c else 24 - fst c)"
    have i: "i \<in> {0..24}" using b by (simp add: i_def)
    have j: "snd c \<in> set [1..24]" using b False by (simp only: set_upto) simp
    have "c = (if even (snd c) then i else 24 - i, snd c)"
      by (simp add: i_def prod_eq_iff)
    then have "c \<in> (\<lambda>i. (if even (snd c) then i else 24 - i, snd c)) ` {0..24}"
      using i by (rule image_eqI)
    then have "c \<in> set (map (\<lambda>i. (if even (snd c) then i else 24 - i, snd c)) [0..24])"
      by (simp only: set_map set_upto)
    with j have "c \<in> set (concat (map (\<lambda>j. map (\<lambda>i. (if even j then i else 24 - i, j)) [0..24]) [1..24]))"
      by (rule in_concat_map)
    then have "c \<in> set lastAppleTail"
      unfolding lastAppleTail_def set_append by (rule UnI2)
    then show ?thesis by simp
  qed
qed

lemma lastApple_unshifted:
  "unshifted lastAppleState 1210 (1, 0) =
     lastAppleState\<lparr>snake := (0, 0) # (1, 0) # lastAppleTail, lastTick := 1210\<rparr>"
  by (simp add: unshifted_def lastApple_head lastApple_fields)
     (simp add: latch_def lastAppleState_def demoState_def)

lemma lastApple_effect:
  "magnetEffect (collectPickups (unshifted lastAppleState 1210 (1, 0)) (0, 0) 1210) 1210 =
     Inr (lastAppleState\<lparr>snake := (0, 0) # (1, 0) # lastAppleTail, lastTick := 1210,
              apples := [], score := 10\<rparr>, True)"
proof -
  have "collectPickups (unshifted lastAppleState 1210 (1, 0)) (0, 0) 1210 =
     (lastAppleState\<lparr>snake := (0, 0) # (1, 0) # lastAppleTail, lastTick := 1210,
              apples := [], score := 10\<rparr>, True)"
    unfolding lastApple_unshifted
    by (simp add: collectPickups_def collectBombOrApple_apple collectMagnet_miss
        collectRocket_miss lastApple_fields)
  then show ?thesis
    by (simp add: magnetEffect_inactive lastApple_fields)
qed

lemma lastApple_before:
  "beforeRespawn lastAppleState 1210 (1, 0) =
     Inr (lastAppleState\<lparr>snake := (0, 0) # (1, 0) # lastAppleTail, lastTick := 1210,
              apples := [], score := 10\<rparr>)"
  unfolding beforeRespawn_def lastApple_head lastApple_effect by (simp add: finalizeMovement_def)

lemma cyclicRolls_range: "\<forall>n. 0 \<le> cyclicRolls n \<and> cyclicRolls n < 1"
  using fullBoard_rolls by (simp add: fullBoard_fields)

lemma lastApple_no_free:
  "freeCells (lastAppleState\<lparr>snake := (0, 0) # (1, 0) # lastAppleTail, lastTick := 1210,
              apples := [], score := 10\<rparr>) = {}"
  using lastApple_full by (auto simp: freeCells_def isCellOccupied_iff)

lemma lastApple_tick: "tick lastAppleState 1210 = None"
proof -
  let ?u = "lastAppleState\<lparr>snake := (0, 0) # (1, 0) # lastAppleTail, lastTick := 1210,
              apples := [], score := 10\<rparr>"
  have due: "tick lastAppleState 1210 = tickBody (unshifted lastAppleState 1210 (1, 0)) (0, 0) 1210"
    by (subst tick_due [where head = "(1, 0)" and rest = lastAppleTail])
       (simp_all add: lastApple_fields lastApple_head outOfBounds_iff origin_fresh)
  have "\<forall>n. 0 \<le> rnd ?u n \<and> rnd ?u n < 1"
    using cyclicRolls_range by (simp add: lastApple_fields)
  moreover have "\<forall>c. \<not> outOfBounds c \<longrightarrow> isCellOccupied ?u c"
    using lastApple_full by (simp add: isCellOccupied_iff)
  ultimately have "randomEmptyCellTotal ?u = None"
    by (rule search_full_grid)
  then have "ensureApple ?u = None"
    by (intro ensureApple_diverges) simp_all
  then have "ensureApple (finalizeMovement (?u, True)) = None"
    by (simp add: finalizeMovement_def)
  with lastApple_effect show ?thesis
    unfolding due by (rule tickBody_hang)
qed

lemma Inr_unique: "\<exists>u. f = Inr u \<and> P u \<Longrightarrow> f = Inr v \<Longrightarrow> P v"
  by auto

lemma mod_25_unit:
  fixes a :: nat
  shows "0 \<le> real (a mod 25) / 25 \<and> real (a mod 25) / 25 < 1"
proof -
  have "a mod 25 < 25" by simp
  then have "real (a mod 25) < real 25" by (simp only: of_nat_less_iff)
  then have "real (a mod 25) < 25" by simp
  then have "real (a mod 25) / 25 < 1"
    by (simp only: divide_less_eq_1_pos zero_less_numeral)
  moreover have "0 \<le> real (a mod 25) / 25"
    by (rule divide_nonneg_nonneg) simp_all
  ultimately show ?thesis by (rule conjI [rotated])
qed

lemma coveringRolls_range: "\<forall>n. 0 \<le> coveringRolls n \<and> coveringRolls n < 1"
proof
  fix n
  show "0 \<le> coveringRolls n \<and> coveringRolls n < 1"
  proof (cases "even n")
    case True
    then have "coveringRolls n = real ((n div 2) mod 25) / 25" by (simp add: coveringRolls_def)
    then show ?thesis by (simp only: mod_25_unit)
  next
    case False
    then have "coveringRolls n = real ((n div 2) div 25 mod 25) / 25" by (simp add: coveringRolls_def)
    then show ?thesis by (simp only: mod_25_unit)
  qed
qed

lemma covering_fields:
  "snake coveringState = [(5, 5), (4, 5), (3, 5)]"
  "running coveringState" "\<not> paused coveringState"
  "walls coveringState = ''solid''" "speedMs coveringState = 210"
  "lastTick coveringState = 1000" "rnd coveringState = coveringRolls"
  by (simp_all add: coveringState_def demo_fields)

lemmas covering_head = eaten_head [of coveringRolls, folded coveringState_def]

lemmas covering_before = eaten_before [of coveringRolls, folded coveringState_def]

lemmas covering_free = eaten_free [of coveringRolls, folded coveringState_def]

lemma covering_eaten_fields:
  "apples (coveringState\<lparr>snake := [(6, 5), (5, 5), (4, 5), (3, 5)], lastTick := 1210,
              apples := [], score := 10\<rparr>) = []"
  "snake (coveringState\<lparr>snake := [(6, 5), (5, 5), (4, 5), (3, 5)], lastTick := 1210,
              apples := [], score := 10\<rparr>) = [(6, 5), (5, 5), (4, 5), (3, 5)]"
  "bomb (coveringState\<lparr>snake := [(6, 5), (5, 5), (4, 5), (3, 5)], lastTick := 1210,
              apples := [], score := 10\<rparr>) = None"
  "magnet (coveringState\<lparr>snake := [(6, 5), (5, 5), (4, 5), (3, 5)], lastTick := 1210,
              apples := [], score := 10\<rparr>) = None"
  "rocket (coveringState\<lparr>snake := [(6, 5), (5, 5), (4, 5), (3, 5)], lastTick := 1210,
              apples := [], score := 10\<rparr>) = None"
  "rocketActive (coveringState\<lparr>snake := [(6, 5), (5, 5), (4, 5), (3, 5)], lastTick := 1210,
              apples := [], score := 10\<rparr>) = None"
  "rndPos (coveringState\<lparr>snake := [(6, 5), (5, 5), (4, 5), (3, 5)], lastTick := 1210,
              apples := [], score := 10\<rparr>) = 0"
  "rnd (coveringState\<lparr>snake := [(6, 5), (5, 5), (4, 5), (3, 5)], lastTick := 1210,
              apples := [], score := 10\<rparr>) = coveringRolls"
  by (simp_all add: coveringState_def demo_fields)

lemma covering_candidate:
  "nthCandidate (coveringState\<lparr>snake := [(6, 5), (5, 5), (4, 5), (3, 5)], lastTick := 1210,
              apples := [], score := 10\<rparr>) 0 = (0, 0)"
  unfolding nthCandidate_def covering_eaten_fields gridWidth_eq gridHeight_eq
  by (simp add: coveringRolls_def)

text \<open>
  C7 as stated fails: the snake of 624 cells is running, the tick is due, the head moves onto
  the last apple at (0, 0) without hitting a wall or itself, and the tick never returns, so
  no apple is spawned.
\<close>

theorem last_apple_tick_never_returns:
  "running lastAppleState \<and> \<not> paused lastAppleState
   \<and> \<not> (1210 - lastTick lastAppleState < speedMs lastAppleState)
   \<and> snake lastAppleState = (1, 0) # lastAppleTail
   \<and> newHeadOf (latch lastAppleState 1210) (1, 0) = (0, 0)
   \<and> \<not> outOfBounds (0, 0) \<and> (0, 0) \<notin> set (snake lastAppleState)
   \<and> apples lastAppleState = [(0, 0)]
   \<and> tick lastAppleState 1210 = None"
  by (simp add: lastApple_fields lastApple_head outOfBounds_iff origin_fresh lastApple_tick)

theorem tick_respawn_needs_free_cell_witness:
  "beforeRespawn coveringState 1210 (5, 5) =
     Inr (coveringState\<lparr>snake := [(6, 5), (5, 5), (4, 5), (3, 5)], lastTick := 1210,
              apples := [], score := 10\<rparr>)
   \<and> ensureApple (coveringState\<lparr>snake := [(6, 5), (5, 5), (4, 5), (3, 5)], lastTick := 1210,
              apples := [], score := 10\<rparr>) =
       Some (Inr (coveringState\<lparr>snake := [(6, 5), (5, 5), (4, 5), (3, 5)], lastTick := 1210,
              apples := [], score := 10, rndPos := 2, apples := [(0, 0)]\<rparr>))
   \<and> \<not> isCellOccupied (coveringState\<lparr>snake := [(6, 5), (5, 5), (4, 5), (3, 5)],
              lastTick := 1210, apples := [], score := 10\<rparr>) (0, 0)
   \<and> \<not> outOfBounds (0, 0)
   \<and> (\<exists>s'. tick coveringState 1210 = Some (Inr (Completed s')) \<and> apples s' = [(0, 0)])
   \<and> beforeRespawn lastAppleState 1210 (1, 0) =
       Inr (lastAppleState\<lparr>snake := (0, 0) # (1, 0) # lastAppleTail, lastTick := 1210,
              apples := [], score := 10\<rparr>)
   \<and> freeCells (lastAppleState\<lparr>snake := (0, 0) # (1, 0) # lastAppleTail, lastTick := 1210,
              apples := [], score := 10\<rparr>) = {}
   \<and> tick lastAppleState 1210 = None"
proof -
  let ?U = "coveringState\<lparr>snake := [(6, 5), (5, 5), (4, 5), (3, 5)], lastTick := 1210,
              apples := [], score := 10\<rparr>"
  let ?V = "lastAppleState\<lparr>snake := (0, 0) # (1, 0) # lastAppleTail, lastTick := 1210,
              apples := [], score := 10\<rparr>"
  have c: "running coveringState" "\<not> paused coveringState"
    "\<not> 1210 - (if lastTick coveringState = 0 then 1210 else lastTick coveringState)
        < speedMs coveringState"
    "snake coveringState = (5, 5) # [(4, 5), (3, 5)]"
    "\<not> (walls coveringState = ''solid''
        \<and> outOfBounds (newHeadOf (latch coveringState 1210) (5, 5)))"
    "newHeadOf (latch coveringState 1210) (5, 5) \<notin> set (snake coveringState)"
    by (simp_all add: covering_fields covering_head outOfBounds_iff)
  note rc = Inr_unique [OF tick_respawn_needs_free_cell [OF c] covering_before]
  have free: "\<not> isCellOccupied ?U (0, 0)"
    by (simp add: isCellOccupied_iff covering_eaten_fields)
  have k0: "apples ?U = [] \<and> \<not> isCellOccupied ?U (nthCandidate ?U 0)
            \<and> (\<forall>j<0. isCellOccupied ?U (nthCandidate ?U j))"
    using free by (simp add: covering_candidate covering_eaten_fields)
  note sp = rc [THEN conjunct2, THEN conjunct2, THEN conjunct2, THEN conjunct1, THEN spec,
      of 0, THEN mp, OF k0, unfolded covering_candidate]
  from sp have e: "ensureApple ?U = Some (Inr (?U\<lparr>rndPos := 2, apples := [(0, 0)]\<rparr>))"
    by (simp add: covering_eaten_fields)
  from sp coveringRolls_range have g: "\<not> outOfBounds (0, 0)"
    by (simp add: covering_fields)
  from rc [THEN conjunct2, THEN conjunct2, THEN conjunct2, THEN conjunct2] coveringRolls_cover
    covering_free
  obtain s' where s': "tick coveringState 1210 = Some (Inr (Completed s'))"
    by (auto simp: covering_fields)
  with sp have "apples s' = [(0, 0)]"
    by (auto simp: covering_eaten_fields)
  with s' have t: "\<exists>s'. tick coveringState 1210 = Some (Inr (Completed s')) \<and> apples s' = [(0, 0)]"
    by blast
  have l: "running lastAppleState" "\<not> paused lastAppleState"
    "\<not> 1210 - (if lastTick lastAppleState = 0 then 1210 else lastTick lastAppleState)
        < speedMs lastAppleState"
    "snake lastAppleState = (1, 0) # lastAppleTail"
    "\<not> (walls lastAppleState = ''solid''
        \<and> outOfBounds (newHeadOf (latch lastAppleState 1210) (1, 0)))"
    "newHeadOf (latch lastAppleState 1210) (1, 0) \<notin> set (snake lastAppleState)"
    by (simp_all add: lastApple_fields lastApple_head outOfBounds_iff origin_fresh)
  note rl = Inr_unique [OF tick_respawn_needs_free_cell [OF l] lastApple_before]
  have "apples ?V = [] \<and> (\<forall>n. 0 \<le> rnd lastAppleState n \<and> rnd lastAppleState n < 1)
          \<and> freeCells ?V = {}"
    using cyclicRolls_range by (simp add: lastApple_no_free lastApple_fields)
  with rl [THEN conjunct2, THEN conjunct2, THEN conjunct1]
  have h: "tick lastAppleState 1210 = None"
    by (rule mp)
  from e free g t h show ?thesis
    by (simp only: covering_before lastApple_before lastApple_no_free simp_thms)
qed

end
